theory Spec2Isabelle
  imports Complex_Main "HOL-Library.Multiset" "HOL-Library.Log_Nat"
begin

section \<open>Numbers, missing fields and array primitives\<close>

text \<open>
  The services compute on JavaScript numbers, which are binary64 floating-point values. A
  finite number is modelled by the rational it denotes, and an arithmetic operator by the
  exact operation followed by \<open>fl\<close>, the rounding to the nearest value with a significand
  of 53 bits, a tie going to the even significand. The exponent range is not modelled: a
  result of magnitude \<open>2^1024\<close> or more, an infinity in the source, and a result below
  \<open>2^-1022\<close>, where binary64 has fewer bits, are outside the model. The integers that
  count records and pages are kept as integers: they are far below \<open>2^53\<close>, up to where
  binary64 holds every integer.

  A numeric field of a stored document is absent, \<open>null\<close> or a number. Where the source
  can divide by zero, in the page count, the result has the type \<open>number\<close> with the
  infinities and \<open>NaN\<close>; everywhere else a guard keeps the divisor away from zero.
\<close>

definition round_half_even :: "rat \<Rightarrow> int" where
  "round_half_even x =
     (let f = \<lfloor>x\<rfloor>; r = x - of_int f
      in if r < 1 / 2 then f else if r > 1 / 2 then f + 1 else if even f then f else f + 1)"

definition ilog2 :: "rat \<Rightarrow> int" where
  \<comment> \<open>for a positive \<open>x\<close>, the exponent \<open>e\<close> with \<open>2^e \<le> x < 2^(e+1)\<close>\<close>
  "ilog2 x =
     (let d = bitlen (fst (quotient_of x)) - bitlen (snd (quotient_of x))
      in if 2 powi d \<le> x then d else d - 1)"

definition fl :: "rat \<Rightarrow> rat" where
  "fl x =
     (if x = 0 then 0
      else let s = 2 powi (ilog2 \<bar>x\<bar> - 52) in of_int (round_half_even (x / s)) * s)"

definition js_add :: "rat \<Rightarrow> rat \<Rightarrow> rat" where
  "js_add a b = fl (a + b)"

definition js_sub :: "rat \<Rightarrow> rat \<Rightarrow> rat" where
  "js_sub a b = fl (a - b)"

definition js_mul :: "rat \<Rightarrow> rat \<Rightarrow> rat" where
  "js_mul a b = fl (a * b)"

definition js_div :: "rat \<Rightarrow> rat \<Rightarrow> rat" where
  \<comment> \<open>\<open>a / b\<close> for a divisor that is not zero\<close>
  "js_div a b = fl (a / b)"

datatype field = Missing | Null | Num rat

definition orZero :: "field \<Rightarrow> rat" where
  \<comment> \<open>\<open>field || 0\<close> on a numeric field\<close>
  "orZero v = (case v of Num x \<Rightarrow> x | _ \<Rightarrow> 0)"

datatype number = Finite rat | PosInfinity | NegInfinity | NaN

definition divide_number :: "rat \<Rightarrow> rat \<Rightarrow> number" where
  \<comment> \<open>\<open>a / b\<close> where \<open>b\<close> may be zero\<close>
  "divide_number a b =
     (if b \<noteq> 0 then Finite (js_div a b)
      else if a > 0 then PosInfinity else if a < 0 then NegInfinity else NaN)"

definition Math_ceil :: "number \<Rightarrow> number" where
  "Math_ceil x = (case x of Finite r \<Rightarrow> Finite (of_int \<lceil>r\<rceil>) | _ \<Rightarrow> x)"

definition less_number :: "rat \<Rightarrow> number \<Rightarrow> bool" where
  \<comment> \<open>\<open>a < b\<close>: false against \<open>NaN\<close>\<close>
  "less_number a b =
     (case b of Finite r \<Rightarrow> a < r | PosInfinity \<Rightarrow> True | NegInfinity \<Rightarrow> False | NaN \<Rightarrow> False)"

definition Math_round :: "rat \<Rightarrow> int" where
  \<comment> \<open>\<open>Math.round\<close>: the nearest integer, a tie going to the larger one\<close>
  "Math_round x = \<lfloor>x + 1 / 2\<rfloor>"

definition Math_pow10 :: "nat \<Rightarrow> rat" where
  \<comment> \<open>\<open>Math.pow(10, n)\<close>\<close>
  "Math_pow10 n = fl (10 ^ n)"

definition roundToDecimals :: "rat option \<Rightarrow> nat \<Rightarrow> rat" where
  \<comment> \<open>\<open>transformData.roundToDecimals\<close>; \<open>None\<close> is \<open>null\<close> or \<open>undefined\<close>\<close>
  "roundToDecimals value decimals =
     (case value of
        None \<Rightarrow> 0
      | Some v \<Rightarrow>
          js_div (of_int (Math_round (js_mul v (Math_pow10 decimals)))) (Math_pow10 decimals))"

text \<open>
  \<open>Array.prototype.sort\<close> with a comparison function is stable: \<open>a\<close> goes before \<open>b\<close>
  when the comparison is negative, after it when positive, and two elements that compare
  equal keep the order they had. Insertion from the right end of the array gives that
  order.
\<close>

fun insert_by :: "('a \<Rightarrow> 'a \<Rightarrow> rat) \<Rightarrow> 'a \<Rightarrow> 'a list \<Rightarrow> 'a list" where
  "insert_by cmp x [] = [x]"
| "insert_by cmp x (y # ys) =
     (if cmp x y \<le> 0 then x # y # ys else y # insert_by cmp x ys)"

fun array_sort :: "('a \<Rightarrow> 'a \<Rightarrow> rat) \<Rightarrow> 'a list \<Rightarrow> 'a list" where
  "array_sort cmp [] = []"
| "array_sort cmp (x # xs) = insert_by cmp x (array_sort cmp xs)"

definition relative_index :: "int \<Rightarrow> nat \<Rightarrow> nat" where
  \<comment> \<open>how \<open>slice\<close> reads an index: a negative one counts from the end, and both ends clamp\<close>
  "relative_index k n = (if k < 0 then nat (max (int n + k) 0) else min (nat k) n)"

definition slice :: "'a list \<Rightarrow> int \<Rightarrow> int \<Rightarrow> 'a list" where
  \<comment> \<open>\<open>xs.slice(start, end)\<close>\<close>
  "slice xs start end =
     (let a = relative_index start (length xs); b = relative_index end (length xs)
      in take (b - a) (drop a xs))"

definition slice_from :: "'a list \<Rightarrow> int \<Rightarrow> 'a list" where
  \<comment> \<open>\<open>xs.slice(start)\<close>\<close>
  "slice_from xs start = drop (relative_index start (length xs)) xs"

section \<open>Countries service\<close>

record country_doc =
  Country :: string
  Yearly_Revenue :: field

record named_country =
  countryName :: string

record country_row = named_country +
  yearlyRevenue :: rat

record share_entry = named_country +
  revenue :: rat
  percentage :: rat

text \<open>
  The rows of the source also carry \<open>formattedRevenue\<close> and \<open>formattedPercentage\<close>,
  strings made from the same numbers by \<open>Intl.NumberFormat\<close> and \<open>toFixed\<close>; they are
  left out here, in every service.
\<close>

definition yearlyRevenue_of :: "country_doc \<Rightarrow> rat" where
  "yearlyRevenue_of c = orZero (Yearly_Revenue c)"

definition totalRevenue_of :: "country_doc list \<Rightarrow> rat" where
  \<comment> \<open>the \<open>reduce\<close> of lines 180 to 182 and of line 206\<close>
  "totalRevenue_of cs = foldl (\<lambda>sum c. js_add sum (orZero (Yearly_Revenue c))) 0 cs"

definition by_revenue_desc :: "country_doc \<Rightarrow> country_doc \<Rightarrow> rat" where
  \<comment> \<open>the comparison function of line 186\<close>
  "by_revenue_desc a b = js_sub (orZero (Yearly_Revenue b)) (orZero (Yearly_Revenue a))"

definition share_percentage :: "rat \<Rightarrow> rat \<Rightarrow> rat" where
  \<comment> \<open>\<open>totalRevenue > 0 ? (revenue / totalRevenue) * 100 : 0\<close>\<close>
  "share_percentage totalRevenue r =
     (if totalRevenue > 0 then js_mul (js_div r totalRevenue) 100 else 0)"

definition share_of :: "rat \<Rightarrow> country_doc \<Rightarrow> share_entry" where
  \<comment> \<open>the body of the \<open>map\<close> of lines 189 to 200\<close>
  "share_of totalRevenue c =
     (let r = orZero (Yearly_Revenue c)
      in \<lparr>countryName = Country c, revenue = r,
          percentage = roundToDecimals (Some (share_percentage totalRevenue r)) 2\<rparr>)"

definition topCountries :: "int \<Rightarrow> country_doc list \<Rightarrow> country_doc list" where
  \<comment> \<open>lines 185 to 187: sort, then \<open>slice(0, limit)\<close>\<close>
  "topCountries limit allCountries = slice (array_sort by_revenue_desc allCountries) 0 limit"

definition others_entry :: "rat \<Rightarrow> country_doc list \<Rightarrow> share_entry" where
  \<comment> \<open>lines 204 to 216, on the records that \<open>slice(limit)\<close> gave\<close>
  "others_entry totalRevenue rest =
     (let othersRevenue = totalRevenue_of rest
      in \<lparr>countryName = ''Others'', revenue = othersRevenue,
          percentage = roundToDecimals (Some (share_percentage totalRevenue othersRevenue)) 2\<rparr>)"

definition getRevenueShareByCountry :: "int \<Rightarrow> country_doc list \<Rightarrow> share_entry list" where
  \<comment> \<open>\<open>sort\<close> works in place, so that from line 185 on \<open>allCountries\<close> is the sorted array\<close>
  "getRevenueShareByCountry limit docs =
     (let totalRevenue = totalRevenue_of docs;
          allCountries = array_sort by_revenue_desc docs;
          result = map (share_of totalRevenue) (topCountries limit docs)
      in if int (length allCountries) > limit
         then result @ [others_entry totalRevenue (slice_from allCountries limit)]
         else result)"

section \<open>The collection interface\<close>

text \<open>
  The services read through the database driver, which is not part of the repository. A
  collection is the list of its documents in the order the server yields them; the cursor
  operations are modelled by what the driver and the server document:
  \<^item> a filter with \<open>$gte\<close> or \<open>$gt\<close> against a number matches only documents that hold a
    number in the field;
  \<^item> in a sort, an absent field and \<open>null\<close> are equal and come below every number, so a
    descending sort puts them last; documents with equal keys keep the collection's order
    here (the server promises no order among them);
  \<^item> \<open>limit(0)\<close> sets no limit, and a negative limit is taken by its absolute value;
  \<^item> a negative \<open>skip\<close> is rejected by the server, and the promise of \<open>toArray\<close> fails.
\<close>

datatype db_error = BadValue

definition bson_compare :: "field \<Rightarrow> field \<Rightarrow> rat" where
  "bson_compare a b =
     (case a of
        Num x \<Rightarrow> (case b of Num y \<Rightarrow> x - y | _ \<Rightarrow> 1)
      | _ \<Rightarrow> (case b of Num y \<Rightarrow> - 1 | _ \<Rightarrow> 0))"

definition cursor_sort_desc :: "('d \<Rightarrow> field) \<Rightarrow> 'd list \<Rightarrow> 'd list" where
  \<comment> \<open>\<open>.sort({ key: -1 })\<close>\<close>
  "cursor_sort_desc key docs = array_sort (\<lambda>a b. bson_compare (key b) (key a)) docs"

definition cursor_skip :: "int \<Rightarrow> 'd list \<Rightarrow> db_error + 'd list" where
  \<comment> \<open>\<open>.skip(n)\<close>\<close>
  "cursor_skip n docs = (if n < 0 then Inl BadValue else Inr (drop (nat n) docs))"

definition cursor_limit :: "int \<Rightarrow> 'd list \<Rightarrow> 'd list" where
  \<comment> \<open>\<open>.limit(n)\<close>\<close>
  "cursor_limit n docs = (if n = 0 then docs else take (nat \<bar>n\<bar>) docs)"

definition getTopCountriesByRevenue :: "int \<Rightarrow> country_doc list \<Rightarrow> country_row list" where
  \<comment> \<open>lines 146 to 165 of the countries service\<close>
  "getTopCountriesByRevenue limit docs =
     map (\<lambda>country. \<lparr>countryName = Country country,
                       yearlyRevenue = orZero (Yearly_Revenue country)\<rparr>)
       (cursor_limit limit (cursor_sort_desc Yearly_Revenue docs))"

section \<open>Regions service\<close>

record region_doc =
  Region :: string
  Region_Yearly_Revenue :: field

record region_share =
  regionName :: string
  region_revenue :: rat
  region_percentage :: rat

record regions_summary =
  totalRegions :: nat
  regionsWithData :: nat
  totalRevenue :: rat
  regions :: "region_share list"

text \<open>
  \<open>Region_Yearly_Revenue\<close> is the field \<open>Yearly Revenue\<close> of a region document, and
  \<open>region_revenue\<close> and \<open>region_percentage\<close> are the keys \<open>revenue\<close> and \<open>percentage\<close> of a
  region's entry. \<open>!== null\<close> holds for an absent field, which reads as \<open>undefined\<close>.
\<close>

definition getRegionsSummary :: "region_doc list \<Rightarrow> regions_summary" where
  "getRegionsSummary docs =
     (let totalRevenue =
            foldl (\<lambda>sum region. js_add sum (orZero (Region_Yearly_Revenue region))) 0 docs;
          regionsWithData = filter (\<lambda>region. Region_Yearly_Revenue region \<noteq> Null) docs
      in \<lparr>totalRegions = length docs,
          regionsWithData = length regionsWithData,
          totalRevenue = totalRevenue,
          regions = map (\<lambda>region.
             \<lparr>regionName = Region region,
              region_revenue = orZero (Region_Yearly_Revenue region),
              region_percentage =
                (if totalRevenue > 0
                 then js_mul (js_div (orZero (Region_Yearly_Revenue region)) totalRevenue) 100
                 else 0)\<rparr>) docs\<rparr>)"

section \<open>Customers: quarterly data, analysis and statistics\<close>

record customer_doc =
  Customer_Name :: string
  Quarter_3_Revenue :: field
  Quarter_4_Revenue :: field
  Variance :: field
  Percentage_of_Variance :: field

record customer_row =
  customerName :: string
  q3Revenue :: rat
  q4Revenue :: rat
  variance :: rat
  percentageVariance :: rat

record analysis_row = customer_row +
  growthStatus :: string

record applied_filters =
  minQ4Revenue :: rat
  positiveGrowthOnly :: bool

record filters =
  filter_minQ4Revenue :: rat
  filter_positiveGrowthOnly :: bool
  filter_limit :: int
  filter_page :: int

text \<open>
  \<open>filters\<close> is the argument of the two services after its destructuring: the fields are
  \<open>minQ4Revenue\<close>, \<open>positiveGrowthOnly\<close>, \<open>limit\<close> and \<open>page\<close>, for which a caller that
  leaves one out gets 0, \<open>false\<close>, 50 and 1. Both controllers pass all four.
\<close>

record page_info =
  currentPage :: int
  totalPages :: number
  totalItems :: int
  itemsPerPage :: int

record 'r page_result =
  customers :: "'r list"
  pagination :: page_info

record 'r analysis_result = "'r page_result" +
  filters :: applied_filters

record query =
  q4_gte :: "rat option"
  variance_gt :: "rat option"

definition build_query :: "rat \<Rightarrow> bool \<Rightarrow> query" where
  \<comment> \<open>lines 133 to 141, the same in both services\<close>
  "build_query minQ4Revenue' positiveGrowthOnly' =
     \<lparr>q4_gte = (if minQ4Revenue' > 0 then Some minQ4Revenue' else None),
      variance_gt = (if positiveGrowthOnly' then Some 0 else None)\<rparr>"

definition matches :: "query \<Rightarrow> customer_doc \<Rightarrow> bool" where
  "matches q d =
     ((case q4_gte q of
         None \<Rightarrow> True
       | Some b \<Rightarrow> (case Quarter_4_Revenue d of Num v \<Rightarrow> v \<ge> b | _ \<Rightarrow> False)) \<and>
      (case variance_gt q of
         None \<Rightarrow> True
       | Some b \<Rightarrow> (case Variance d of Num v \<Rightarrow> v > b | _ \<Rightarrow> False)))"

definition find_docs :: "query \<Rightarrow> customer_doc list \<Rightarrow> customer_doc list" where
  \<comment> \<open>\<open>collection.find(query)\<close>\<close>
  "find_docs q docs = filter (matches q) docs"

definition countDocuments :: "query \<Rightarrow> customer_doc list \<Rightarrow> int" where
  "countDocuments q docs = int (length (filter (matches q) docs))"

definition customer_row_of :: "customer_doc \<Rightarrow> customer_row" where
  "customer_row_of customer =
     \<lparr>customerName = Customer_Name customer,
      q3Revenue = orZero (Quarter_3_Revenue customer),
      q4Revenue = orZero (Quarter_4_Revenue customer),
      variance = orZero (Variance customer),
      percentageVariance = orZero (Percentage_of_Variance customer)\<rparr>"

definition growthStatus_of :: "rat \<Rightarrow> string" where
  "growthStatus_of v = (if v > 0 then ''positive'' else if v < 0 then ''negative'' else ''neutral'')"

definition analysis_row_of :: "customer_doc \<Rightarrow> analysis_row" where
  "analysis_row_of customer =
     \<lparr>customerName = Customer_Name customer,
      q3Revenue = orZero (Quarter_3_Revenue customer),
      q4Revenue = orZero (Quarter_4_Revenue customer),
      variance = orZero (Variance customer),
      percentageVariance = orZero (Percentage_of_Variance customer),
      growthStatus = growthStatus_of (orZero (Variance customer))\<rparr>"

definition getCustomerQuarterlyData ::
  "filters \<Rightarrow> customer_doc list \<Rightarrow> db_error + customer_row page_result" where
  \<comment> \<open>revenue service, lines 121 to 182\<close>
  "getCustomerQuarterlyData f docs =
     (let minQ4Revenue = filter_minQ4Revenue f;
          positiveGrowthOnly = filter_positiveGrowthOnly f;
          limit = filter_limit f;
          page = filter_page f;
          query = build_query minQ4Revenue positiveGrowthOnly;
          skip = (page - 1) * limit;
          total = countDocuments query docs
      in case cursor_skip skip (cursor_sort_desc Variance (find_docs query docs)) of
           Inl e \<Rightarrow> Inl e
         | Inr skipped \<Rightarrow>
             Inr \<lparr>customers = map customer_row_of (cursor_limit limit skipped),
                  pagination = \<lparr>currentPage = page,
                                totalPages = Math_ceil (divide_number (of_int total) (of_int limit)),
                                totalItems = total,
                                itemsPerPage = limit\<rparr>\<rparr>)"

definition getCustomerAnalysis ::
  "filters \<Rightarrow> customer_doc list \<Rightarrow> db_error + analysis_row analysis_result" where
  \<comment> \<open>customers service, lines 294 to 360\<close>
  "getCustomerAnalysis f docs =
     (let minQ4Revenue = filter_minQ4Revenue f;
          positiveGrowthOnly = filter_positiveGrowthOnly f;
          limit = filter_limit f;
          page = filter_page f;
          query = build_query minQ4Revenue positiveGrowthOnly;
          skip = (page - 1) * limit;
          total = countDocuments query docs
      in case cursor_skip skip (cursor_sort_desc Quarter_4_Revenue (find_docs query docs)) of
           Inl e \<Rightarrow> Inl e
         | Inr skipped \<Rightarrow>
             Inr \<lparr>customers = map analysis_row_of (cursor_limit limit skipped),
                  pagination = \<lparr>currentPage = page,
                                totalPages = Math_ceil (divide_number (of_int total) (of_int limit)),
                                totalItems = total,
                                itemsPerPage = limit\<rparr>,
                  filters = \<lparr>minQ4Revenue = minQ4Revenue,
                             positiveGrowthOnly = positiveGrowthOnly\<rparr>\<rparr>)"

record customer_statistics =
  totalCustomers :: nat
  customersWithGrowth :: nat
  customersWithDecline :: nat
  customersNoChange :: nat
  growthPercentage :: rat
  declinePercentage :: rat
  noChangePercentage :: rat
  totalQ3Revenue :: rat
  totalQ4Revenue :: rat

definition getCustomerStatistics :: "customer_doc list \<Rightarrow> customer_statistics" where
  \<comment> \<open>customers service, lines 398 to 431\<close>
  "getCustomerStatistics allCustomers =
     (let totalCustomers = length allCustomers;
          customersWithGrowth = length (filter (\<lambda>c. orZero (Variance c) > 0) allCustomers);
          customersWithDecline = length (filter (\<lambda>c. orZero (Variance c) < 0) allCustomers);
          customersNoChange = length (filter (\<lambda>c. orZero (Variance c) = 0) allCustomers);
          totalQ3Revenue = foldl (\<lambda>sum c. js_add sum (orZero (Quarter_3_Revenue c))) 0 allCustomers;
          totalQ4Revenue = foldl (\<lambda>sum c. js_add sum (orZero (Quarter_4_Revenue c))) 0 allCustomers
      in \<lparr>totalCustomers = totalCustomers,
          customersWithGrowth = customersWithGrowth,
          customersWithDecline = customersWithDecline,
          customersNoChange = customersNoChange,
          growthPercentage =
            (if totalCustomers > 0
             then js_mul (js_div (of_nat customersWithGrowth) (of_nat totalCustomers)) 100 else 0),
          declinePercentage =
            (if totalCustomers > 0
             then js_mul (js_div (of_nat customersWithDecline) (of_nat totalCustomers)) 100 else 0),
          noChangePercentage =
            (if totalCustomers > 0
             then js_mul (js_div (of_nat customersNoChange) (of_nat totalCustomers)) 100 else 0),
          totalQ3Revenue = totalQ3Revenue,
          totalQ4Revenue = totalQ4Revenue\<rparr>)"

section \<open>Response handlers\<close>

datatype jsval =
    JUndefined | JNull | JBool bool | JNumber rat | JNaN | JString string
  | JArray "jsval list" | JObject "(string \<times> jsval) list"

fun truthy :: "jsval \<Rightarrow> bool" where
  "truthy JUndefined = False"
| "truthy JNull = False"
| "truthy (JBool b) = b"
| "truthy (JNumber r) = (r \<noteq> 0)"
| "truthy JNaN = False"
| "truthy (JString s) = (s \<noteq> [])"
| "truthy (JArray xs) = True"
| "truthy (JObject kvs) = True"

definition successResponse ::
  "nat option \<Rightarrow> string option \<Rightarrow> jsval \<Rightarrow> nat \<times> (string \<times> jsval) list" where
  \<comment> \<open>the status and the object given to \<open>res.json\<close>; an argument left out is \<open>None\<close>,
      or \<open>JUndefined\<close> for the data, and takes the default of the parameter list\<close>
  "successResponse statusCode message' data' =
     (let statusCode = (case statusCode of None \<Rightarrow> 200 | Some c \<Rightarrow> c);
          message = (case message' of None \<Rightarrow> ''Success'' | Some m \<Rightarrow> m);
          data = (if data' = JUndefined then JNull else data');
          response = [(''success'', JBool True), (''message'', JString message)]
                     @ (if truthy data then [(''data'', data)] else [])
      in (statusCode, response))"

record pagination = page_info +
  hasNextPage :: bool
  hasPrevPage :: bool
  nextPage :: "int option"
  prevPage :: "int option"

record 'a paginated =
  success :: bool
  message :: string
  data :: 'a
  pagination_block :: pagination

text \<open>
  \<open>pagination_block\<close> is the key \<open>pagination\<close> of the response, and \<open>None\<close> in \<open>nextPage\<close>
  and \<open>prevPage\<close> is \<open>null\<close>.
\<close>

definition paginatedResponse ::
  "'a \<Rightarrow> int \<Rightarrow> int \<Rightarrow> int \<Rightarrow> string \<Rightarrow> 'a paginated" where
  \<comment> \<open>response handler, lines 64 to 91: the object given to \<open>res.status(200).json\<close>\<close>
  "paginatedResponse data' page limit total' message' =
     (let totalPages = Math_ceil (divide_number (of_int total') (of_int limit));
          hasNextPage = less_number (of_int page) totalPages;
          hasPrevPage = (page > 1)
      in \<lparr>success = True,
          message = message',
          data = data',
          pagination_block =
            \<lparr>currentPage = page,
             totalPages = totalPages,
             totalItems = total',
             itemsPerPage = limit,
             hasNextPage = hasNextPage,
             hasPrevPage = hasPrevPage,
             nextPage = (if hasNextPage then Some (page + 1) else None),
             prevPage = (if hasPrevPage then Some (page - 1) else None)\<rparr>\<rparr>)"

datatype 'a reply = Ok200 'a | Error500 string

definition quarterly_data_reply :: "filters \<Rightarrow> customer_doc list \<Rightarrow> customer_row list paginated reply" where
  \<comment> \<open>the controller of \<open>/api/customers/quarterly-data\<close> from line 136 on, with the filters
      it has read from the query\<close>
  "quarterly_data_reply f docs =
     (case getCustomerQuarterlyData f docs of
        Inl e \<Rightarrow> Error500 ''Failed to retrieve customer quarterly data''
      | Inr result \<Rightarrow>
          Ok200 (paginatedResponse (customers result)
                   (currentPage (pagination result)) (itemsPerPage (pagination result))
                   (totalItems (pagination result))
                   ''Customer quarterly data retrieved successfully''))"

definition analysis_reply :: "filters \<Rightarrow> customer_doc list \<Rightarrow> analysis_row list paginated reply" where
  \<comment> \<open>the controller of \<open>/api/customers/analysis\<close> from line 37 on\<close>
  "analysis_reply f docs =
     (case getCustomerAnalysis f docs of
        Inl e \<Rightarrow> Error500 ''Failed to retrieve customer analysis data''
      | Inr result \<Rightarrow>
          Ok200 (paginatedResponse (customers result)
                   (currentPage (pagination result)) (itemsPerPage (pagination result))
                   (totalItems (pagination result))
                   ''Customer analysis data retrieved successfully''))"

section \<open>Query parameters and the limit handed to the services\<close>

text \<open>
  A query parameter is absent or a string when the request arrives. \<open>sanitizeQuery\<close>, the
  middleware in front of the countries routes, replaces the limit by a number when the
  string is not empty; the controller then applies \<open>parseInt\<close> again, to the number.
  The integer that \<open>parseInt\<close> reads is kept exactly: the model does not round it to
  binary64, and so the digits that \<open>number_to_string\<close> gives after the first one, from
  \<open>10^21\<close> on, are those of the integer itself. An integer from \<open>2^1024\<close> on stands for
  \<open>Infinity\<close>.
\<close>

definition is_white :: "char \<Rightarrow> bool" where
  "is_white c = (c \<in> set [CHR 0x09, CHR 0x0A, CHR 0x0B, CHR 0x0C, CHR 0x0D, CHR 0x20])"

definition digit_of :: "char \<Rightarrow> nat option" where
  "digit_of c =
     (let n = (of_char c :: nat)
      in if 48 \<le> n \<and> n \<le> 57 then Some (n - 48)
         else if 97 \<le> n \<and> n \<le> 122 then Some (n - 87)
         else if 65 \<le> n \<and> n \<le> 90 then Some (n - 55)
         else None)"

fun digits_value :: "nat \<Rightarrow> nat option \<Rightarrow> string \<Rightarrow> nat option" where
  \<comment> \<open>the value of the longest prefix of digits of the radix, \<open>None\<close> when it is empty\<close>
  "digits_value R acc [] = acc"
| "digits_value R acc (c # cs) =
     (case digit_of c of
        None \<Rightarrow> acc
      | Some d \<Rightarrow>
          if d < R
          then digits_value R (Some (R * (case acc of None \<Rightarrow> 0 | Some a \<Rightarrow> a) + d)) cs
          else acc)"

definition parseInt :: "string \<Rightarrow> int option" where
  \<comment> \<open>\<open>parseInt(s)\<close> with no radix: white space, a sign, \<open>0x\<close> for radix 16, then digits;
      \<open>None\<close> is \<open>NaN\<close>\<close>
  "parseInt s =
     (let s1 = dropWhile is_white s;
          sign = (case s1 of c # cs \<Rightarrow> if c = CHR ''-'' then - 1 else 1 | [] \<Rightarrow> (1::int));
          s2 = (case s1 of c # cs \<Rightarrow> if c = CHR ''-'' \<or> c = CHR ''+'' then cs else s1 | [] \<Rightarrow> []);
          hex = (case s2 of a # b # cs \<Rightarrow> a = CHR ''0'' \<and> (b = CHR ''x'' \<or> b = CHR ''X'') | _ \<Rightarrow> False);
          R = (if hex then 16 else 10);
          s3 = (if hex then drop 2 s2 else s2)
      in map_option (\<lambda>n. sign * int n) (digits_value R None s3))"

fun decimal_digits :: "nat \<Rightarrow> string" where
  "decimal_digits n =
     (if n < 10 then [''0123456789'' ! n]
      else decimal_digits (n div 10) @ [''0123456789'' ! (n mod 10)])"

declare decimal_digits.simps [simp del]

definition number_to_string :: "int \<Rightarrow> string" where
  \<comment> \<open>\<open>String(n)\<close> for an integral number\<close>
  "number_to_string n =
     (let sign = (if n < 0 then ''-'' else []);
          ds = decimal_digits (nat \<bar>n\<bar>)
      in if \<bar>n\<bar> \<ge> 2 ^ 1024 then sign @ ''Infinity''
         else if \<bar>n\<bar> < 10 ^ 21 then sign @ ds
         else sign @ [hd ds] @ ''.'' @ tl ds @ ''e+'' @ decimal_digits (length ds - 1))"

datatype qvalue = QUndefined | QString string | QNumber int

definition parseInt_q :: "qvalue \<Rightarrow> int option" where
  \<comment> \<open>\<open>parseInt\<close> converts its argument to a string first\<close>
  "parseInt_q v =
     (case v of
        QUndefined \<Rightarrow> parseInt ''undefined''
      | QString s \<Rightarrow> parseInt s
      | QNumber n \<Rightarrow> parseInt (number_to_string n))"

definition or_default :: "int option \<Rightarrow> int \<Rightarrow> int" where
  \<comment> \<open>\<open>n || d\<close> for a result of \<open>parseInt\<close>: \<open>NaN\<close> and 0 are falsy\<close>
  "or_default v d = (case v of None \<Rightarrow> d | Some n \<Rightarrow> if n = 0 then d else n)"

definition truthy_q :: "qvalue \<Rightarrow> bool" where
  "truthy_q v = (case v of QUndefined \<Rightarrow> False | QString s \<Rightarrow> s \<noteq> [] | QNumber n \<Rightarrow> n \<noteq> 0)"

definition sanitizeQuery_limit :: "qvalue \<Rightarrow> qvalue" where
  \<comment> \<open>lines 197 to 199 of the validation middleware, on \<open>req.query.limit\<close>\<close>
  "sanitizeQuery_limit limit =
     (if truthy_q limit then QNumber (or_default (parseInt_q limit) 10) else limit)"

definition query_limit :: "string option \<Rightarrow> qvalue" where
  \<comment> \<open>\<open>req.query.limit\<close> as the request brings it\<close>
  "query_limit q = (case q of None \<Rightarrow> QUndefined | Some s \<Rightarrow> QString s)"

definition controller_limit :: "int \<Rightarrow> string option \<Rightarrow> int" where
  \<comment> \<open>\<open>parseInt(req.query.limit) || fallback\<close> in a controller behind \<open>sanitizeQuery\<close>\<close>
  "controller_limit fallback q =
     or_default (parseInt_q (sanitizeQuery_limit (query_limit q))) fallback"

definition top_revenue_limit :: "string option \<Rightarrow> int" where
  \<comment> \<open>the limit of line 16 of the countries controller\<close>
  "top_revenue_limit q = controller_limit 10 q"

definition revenue_share_limit :: "string option \<Rightarrow> int" where
  \<comment> \<open>the limit of line 30 of the countries controller\<close>
  "revenue_share_limit q = controller_limit 8 q"

definition top_revenue_rows :: "string option \<Rightarrow> country_doc list \<Rightarrow> country_row list" where
  \<comment> \<open>the rows that the route \<open>/api/countries/top-revenue\<close> gives to \<open>successResponse\<close>\<close>
  "top_revenue_rows q docs = getTopCountriesByRevenue (top_revenue_limit q) docs"

definition revenue_share_rows :: "string option \<Rightarrow> country_doc list \<Rightarrow> share_entry list" where
  \<comment> \<open>the rows that the route \<open>/api/countries/revenue-share\<close> gives to \<open>successResponse\<close>\<close>
  "revenue_share_rows q docs = getRevenueShareByCountry (revenue_share_limit q) docs"

section \<open>Example inputs\<close>

text \<open>The three records of the scenarios of the specification.\<close>

definition scenario_countries :: "country_doc list" where
  "scenario_countries =
     [\<lparr>Country = ''A'', Yearly_Revenue = Num 100\<rparr>,
      \<lparr>Country = ''B'', Yearly_Revenue = Num 300\<rparr>,
      \<lparr>Country = ''C'', Yearly_Revenue = Num 200\<rparr>]"

definition cancelling_countries :: "country_doc list" where
  "cancelling_countries =
     [\<lparr>Country = ''A'', Yearly_Revenue = Num (10 ^ 16)\<rparr>,
      \<lparr>Country = ''B'', Yearly_Revenue = Num (- (10 ^ 16))\<rparr>,
      \<lparr>Country = ''C'', Yearly_Revenue = Num 1\<rparr>]"

definition zero_countries :: "country_doc list" where
  "zero_countries =
     [\<lparr>Country = ''A'', Yearly_Revenue = Num 5\<rparr>,
      \<lparr>Country = ''B'', Yearly_Revenue = Num (- 5)\<rparr>,
      \<lparr>Country = ''C'', Yearly_Revenue = Missing\<rparr>]"

definition zero_regions :: "region_doc list" where
  "zero_regions =
     [\<lparr>Region = ''North'', Region_Yearly_Revenue = Null\<rparr>,
      \<lparr>Region = ''South'', Region_Yearly_Revenue = Num 0\<rparr>]"

definition u64 :: rat where
  \<comment> \<open>the unit roundoff of binary64\<close>
  "u64 = 1 / 2 ^ 53"

definition close_to :: "nat \<Rightarrow> rat \<Rightarrow> rat \<Rightarrow> bool" where
  \<comment> \<open>\<open>x\<close> is \<open>y\<close> up to \<open>k\<close> roundings: each is at least \<open>(1 - u64)^k\<close> times the other\<close>
  "close_to k x y = ((1 - u64) ^ k * y \<le> x \<and> (1 - u64) ^ k * x \<le> y)"

definition round_half_away_from_zero :: "rat \<Rightarrow> int" where
  \<comment> \<open>the rounding that the specification names: to the nearest integer, a tie going away
      from zero\<close>
  "round_half_away_from_zero x = (if x \<ge> 0 then \<lfloor>x + 1 / 2\<rfloor> else \<lceil>x - 1 / 2\<rceil>)"

definition spec_round2 :: "rat \<Rightarrow> rat" where
  \<comment> \<open>two decimal places by that rounding of the scaled value, computed as
      \<open>roundToDecimals\<close> computes them\<close>
  "spec_round2 v = js_div (of_int (round_half_away_from_zero (js_mul v 100))) 100"

definition field_ge :: "field \<Rightarrow> field \<Rightarrow> bool" where
  \<comment> \<open>the order of a descending sort on a field: numbers by their value, and a field that
      is absent or \<open>null\<close> after every number\<close>
  "field_ge a b =
     (case b of
        Num y \<Rightarrow> (case a of Num x \<Rightarrow> x \<ge> y | _ \<Rightarrow> False)
      | _ \<Rightarrow> True)"

definition country_row_of :: "country_doc \<Rightarrow> country_row" where
  \<comment> \<open>the row that \<open>getTopCountriesByRevenue\<close> makes of a document\<close>
  "country_row_of country =
     \<lparr>countryName = Country country, yearlyRevenue = orZero (Yearly_Revenue country)\<rparr>"

definition is_digit :: "char \<Rightarrow> bool" where
  "is_digit c = (\<exists>d < 10. c = ''0123456789'' ! d)"

definition spec_keeps :: "rat \<Rightarrow> bool \<Rightarrow> rat \<Rightarrow> rat \<Rightarrow> bool" where
  \<comment> \<open>the filter predicate in the words of the specification, on the Q4 revenue and the
      variance of a record\<close>
  "spec_keeps minimum positiveOnly q4 v =
     ((minimum \<le> 0 \<or> q4 \<ge> minimum) \<and> (\<not> positiveOnly \<or> v > 0))"

definition total_items :: "filters \<Rightarrow> customer_doc list \<Rightarrow> int" where
  \<comment> \<open>\<open>total\<close> of the two services: the count of the documents that match the query\<close>
  "total_items f docs =
     countDocuments (build_query (filter_minQ4Revenue f) (filter_positiveGrowthOnly f)) docs"

definition scenario_customers :: "customer_doc list" where
  "scenario_customers =
     [\<lparr>Customer_Name = ''X'', Quarter_3_Revenue = Num 90, Quarter_4_Revenue = Num 100,
       Variance = Num 10, Percentage_of_Variance = Missing\<rparr>,
      \<lparr>Customer_Name = ''Y'', Quarter_3_Revenue = Num 250, Quarter_4_Revenue = Num 200,
       Variance = Num (- 50), Percentage_of_Variance = Null\<rparr>]"

definition scenario_filters :: filters where
  "scenario_filters =
     \<lparr>filter_minQ4Revenue = 150, filter_positiveGrowthOnly = False,
      filter_limit = 50, filter_page = 1\<rparr>"

definition five_customers :: "customer_doc list" where
  "five_customers =
     map (\<lambda>v. \<lparr>Customer_Name = ''K'', Quarter_3_Revenue = Num 1, Quarter_4_Revenue = Num (1 + v),
                Variance = Num v, Percentage_of_Variance = Missing\<rparr>) [3, 0, - 2, 7, 0]"

definition three_customers :: "customer_doc list" where
  "three_customers =
     map (\<lambda>v. \<lparr>Customer_Name = ''T'', Quarter_3_Revenue = Num 10, Quarter_4_Revenue = Num (10 + v),
                Variance = Num v, Percentage_of_Variance = Missing\<rparr>) [1, - 1, 0]"

definition page_three :: filters where
  "page_three =
     \<lparr>filter_minQ4Revenue = 0, filter_positiveGrowthOnly = False,
      filter_limit = 10, filter_page = 3\<rparr>"

section \<open>Rounding to binary64\<close>

lemma round_half_even_error: "\<bar>of_int (round_half_even x) - x\<bar> \<le> 1 / 2"
proof -
  have "of_int \<lfloor>x\<rfloor> \<le> x" "x < of_int \<lfloor>x\<rfloor> + 1"
    by linarith+
  then show ?thesis
    unfolding round_half_even_def Let_def by (auto simp: abs_le_iff)
qed

lemma round_half_even_of_int [simp]: "round_half_even (of_int k) = k"
  by (simp add: round_half_even_def)

lemma ilog2_le:
  assumes "0 < x"
  shows "2 powi (ilog2 x) \<le> x"
proof -
  obtain p q where pq: "quotient_of x = (p, q)"
    by (cases "quotient_of x")
  then have q: "0 < q" and x: "x = of_int p / of_int q"
    by (simp_all add: quotient_of_denom_pos quotient_of_div)
  with assms have p: "0 < p"
    by (simp add: zero_less_divide_iff)
  define d where "d = bitlen p - bitlen q"
  show ?thesis
  proof (cases "2 powi d \<le> x")
    case True
    then show ?thesis
      by (simp add: ilog2_def pq d_def)
  next
    case False
    then have e: "ilog2 x = d - 1"
      by (simp add: ilog2_def pq d_def)
    from bitlen_bounds [OF p] have lo: "(2::rat) ^ nat (bitlen p - 1) \<le> of_int p"
      by (metis of_int_le_iff of_int_numeral of_int_power)
    from bitlen_bounds [OF q] have hi: "of_int q < (2::rat) ^ nat (bitlen q)"
      by (metis of_int_less_iff of_int_numeral of_int_power)
    have bp: "1 \<le> bitlen p" and bq: "1 \<le> bitlen q"
      using p q by (simp_all add: bitlen_alt_def)
    define a where "a = nat (bitlen p - 1)"
    define b where "b = nat (bitlen q)"
    have "d - 1 = int a - int b"
      using bp bq by (simp add: d_def a_def b_def)
    moreover have "(2::rat) powi (int a - int b) = 2 powi int a / 2 powi int b"
      by (rule power_int_diff) simp
    ultimately have "(2::rat) powi (d - 1) = 2 ^ a / 2 ^ b"
      by (simp only: power_int_of_nat)
    then have "(2::rat) powi (d - 1) = 2 ^ nat (bitlen p - 1) / 2 ^ nat (bitlen q)"
      by (simp only: a_def b_def)
    also have "\<dots> \<le> of_int p / 2 ^ nat (bitlen q)"
      using lo by (simp add: divide_right_mono)
    also have "\<dots> \<le> of_int p / of_int q"
      using hi q p by (simp add: frac_le)
    finally have "(2::rat) powi (d - 1) \<le> of_int p / of_int q" .
    then show ?thesis
      by (simp only: e x [symmetric])
  qed
qed

lemma fl_0 [simp]: "fl 0 = 0"
  by (simp add: fl_def)

lemma fl_error: "\<bar>fl x - x\<bar> \<le> u64 * \<bar>x\<bar>"
proof (cases "x = 0")
  case True
  then show ?thesis by simp
next
  case False
  define e where "e = ilog2 \<bar>x\<bar>"
  define s :: rat where "s = 2 powi (e - 52)"
  define r :: rat where "r = of_int (round_half_even (x / s))"
  have s: "0 < s"
    by (simp add: s_def)
  have f: "fl x = r * s"
    using False by (simp add: fl_def e_def s_def r_def Let_def)
  have "\<bar>r - x / s\<bar> \<le> 1 / 2"
    unfolding r_def by (rule round_half_even_error)
  then have "\<bar>r - x / s\<bar> * s \<le> 1 / 2 * s"
    using s by (rule_tac mult_right_mono) simp_all
  moreover have "r * s - x = (r - x / s) * s"
    using s by (simp add: left_diff_distrib)
  then have "\<bar>r * s - x\<bar> = \<bar>r - x / s\<bar> * s"
    using s by (simp add: abs_mult)
  ultimately have a: "\<bar>fl x - x\<bar> \<le> s / 2"
    by (simp add: f)
  have "(2::rat) powi e \<le> \<bar>x\<bar>"
    unfolding e_def using False by (intro ilog2_le) simp
  moreover have "s = 2 powi e / 2 ^ 52"
    unfolding s_def by (subst power_int_diff) simp_all
  ultimately have "s / 2 \<le> u64 * \<bar>x\<bar>"
    by (simp add: u64_def field_simps)
  with a show ?thesis
    by linarith
qed

lemma u64_bounds: "0 < u64" "u64 < 1"
  by (simp_all add: u64_def)

lemma fl_bounds:
  assumes "0 \<le> x"
  shows "(1 - u64) * x \<le> fl x" and "fl x \<le> (1 + u64) * x"
  using fl_error [of x] assms by (simp_all add: abs_le_iff algebra_simps)

lemma fl_nonneg: "0 \<le> x \<Longrightarrow> 0 \<le> fl x"
proof -
  assume x: "0 \<le> x"
  then have "0 \<le> (1 - u64) * x"
    using u64_bounds by simp
  with fl_bounds(1) [OF x] show ?thesis
    by linarith
qed

lemma fl_pos: "0 < x \<Longrightarrow> 0 < fl x"
proof -
  assume x: "0 < x"
  then have "0 < (1 - u64) * x"
    using u64_bounds by simp
  with fl_bounds(1) [of x] x show ?thesis
    by linarith
qed

lemma fl_neg: "x < 0 \<Longrightarrow> fl x < 0"
proof -
  assume x: "x < 0"
  then have "x + u64 * \<bar>x\<bar> = (1 - u64) * x"
    by (simp add: algebra_simps)
  moreover from x have "(1 - u64) * x < 0"
    using u64_bounds by (simp add: mult_pos_neg)
  moreover from fl_error [of x] have "fl x \<le> x + u64 * \<bar>x\<bar>"
    by (simp add: abs_le_iff)
  ultimately show ?thesis
    by linarith
qed

lemma fl_le_0_iff: "(fl x \<le> 0) = (x \<le> 0)"
proof (cases "x \<le> 0")
  case True
  then have "x < 0 \<or> x = 0"
    by auto
  then have "fl x \<le> 0"
    using fl_neg [of x] by auto
  with True show ?thesis
    by simp
next
  case False
  then have "0 < fl x"
    by (intro fl_pos) simp
  with False show ?thesis
    by simp
qed

lemma ilog2_less:
  assumes "0 < x" and "x < 2 ^ n"
  shows "ilog2 x < int n"
proof (rule ccontr)
  assume "\<not> ilog2 x < int n"
  then have "(2::rat) powi int n \<le> 2 powi ilog2 x"
    by (intro power_int_increasing) simp_all
  with ilog2_le [OF assms(1)] have "(2::rat) ^ n \<le> x"
    by simp
  with assms(2) show False
    by simp
qed

lemma fl_of_int:
  assumes "\<bar>k\<bar> < 2 ^ 53"
  shows "fl (of_int k) = of_int k"
proof (cases "k = 0")
  case True
  then show ?thesis by simp
next
  case False
  define e where "e = ilog2 \<bar>of_int k\<bar>"
  have pos: "(0::rat) < \<bar>of_int k\<bar>"
    using False by simp
  have "\<bar>of_int k :: rat\<bar> < 2 ^ 53"
    using assms by (metis of_int_abs of_int_less_iff of_int_numeral of_int_power)
  from ilog2_less [OF pos this] have e: "e < 53"
    by (simp add: e_def)
  define m where "m = nat (52 - e)"
  have "e - 52 = - int m"
    using e by (simp add: m_def)
  then have "(2::rat) powi (e - 52) = 2 powi (- int m)"
    by (simp only:)
  also have "\<dots> = inverse (2 powi int m)"
    by (rule power_int_minus)
  also have "\<dots> = 1 / 2 ^ m"
    by (simp add: inverse_eq_divide)
  finally have s: "(2::rat) powi (e - 52) = 1 / 2 ^ m" .
  have "(of_int k :: rat) / (1 / 2 ^ m) = of_int (k * 2 ^ m)"
    by simp
  then have "round_half_even ((of_int k :: rat) / (1 / 2 ^ m)) = k * 2 ^ m"
    by (simp only: round_half_even_of_int)
  then have "fl (of_int k) = of_int (k * 2 ^ m) * (1 / 2 ^ m)"
    using False by (simp add: fl_def Let_def e_def [symmetric] s)
  then show ?thesis
    by simp
qed

lemma Math_pow10_2 [simp]: "Math_pow10 2 = 100"
proof -
  have "fl (of_int 100) = of_int 100"
    by (rule fl_of_int) simp
  then show ?thesis
    by (simp add: Math_pow10_def)
qed

lemma ceiling_js_div:
  fixes t l :: int
  assumes "0 \<le> t" and "t < 2 ^ 53" and "1 \<le> l"
  shows "\<lceil>js_div (of_int t) (of_int l)\<rceil> = \<lceil>(of_int t :: rat) / of_int l\<rceil>"
proof -
  define x :: rat where "x = of_int t / of_int l"
  define k where "k = \<lceil>x\<rceil>"
  have l: "(0::rat) < of_int l"
    using assms(3) by simp
  have x0: "0 \<le> x"
    using assms(1) l by (simp add: x_def)
  have xt: "x \<le> of_int t"
  proof -
    have "(of_int t :: rat) / of_int l \<le> of_int t / 1"
      using assms(1,3) by (intro divide_left_mono) simp_all
    then show ?thesis
      by (simp add: x_def)
  qed
  show ?thesis
  proof (cases "x = of_int k")
    case True
    have "0 \<le> k"
      using x0 True by simp
    moreover have "k \<le> t"
      using xt True by simp
    ultimately have "\<bar>k\<bar> < 2 ^ 53"
      using assms(2) by simp
    from fl_of_int [OF this] True show ?thesis
      by (simp add: js_div_def x_def [symmetric] k_def [symmetric])
  next
    case False
    have up: "x \<le> of_int k" and lo: "of_int k - 1 < x"
      unfolding k_def by linarith+
    from False up have lt: "x < of_int k"
      by simp
    have tx: "of_int t = x * of_int l"
      using l by (simp add: x_def)
    from lt l have "x * of_int l < of_int k * of_int l"
      by (simp add: mult_strict_right_mono)
    then have "(of_int t :: rat) < of_int (k * l)"
      by (simp add: tx)
    then have "t < k * l"
      by (simp only: of_int_less_iff)
    then have "t + 1 \<le> k * l"
      by linarith
    then have "(of_int t :: rat) + 1 \<le> of_int k * of_int l"
      by (metis of_int_1 of_int_add of_int_le_iff of_int_mult)
    then have "((of_int t :: rat) + 1) / of_int l \<le> of_int k * of_int l / of_int l"
      using l by (intro divide_right_mono) simp_all
    moreover have "((of_int t :: rat) + 1) / of_int l = x + 1 / of_int l"
      by (simp add: x_def add_divide_distrib)
    moreover have "(of_int k :: rat) * of_int l / of_int l = of_int k"
      using l by simp
    ultimately have a: "x + 1 / of_int l \<le> of_int k"
      by (simp only:)
    from lo l have "(of_int k - 1) * of_int l < x * of_int l"
      by (simp add: mult_strict_right_mono)
    then have "(of_int ((k - 1) * l) :: rat) < of_int t"
      by (simp add: tx)
    then have "(k - 1) * l < t"
      by (simp only: of_int_less_iff)
    then have "(k - 1) * l + 1 \<le> t"
      by linarith
    then have "(of_int k - 1) * of_int l + 1 \<le> (of_int t :: rat)"
      by (metis of_int_1 of_int_add of_int_diff of_int_le_iff of_int_mult)
    then have "((of_int k - 1) * of_int l + 1) / of_int l \<le> (of_int t :: rat) / of_int l"
      using l by (intro divide_right_mono) simp_all
    moreover have "((of_int k - 1) * of_int l + 1) / of_int l = (of_int k :: rat) - 1 + 1 / of_int l"
      using l by (simp add: add_divide_distrib)
    ultimately have b: "of_int k - 1 + 1 / of_int l \<le> x"
      by (simp only: x_def)
    have "(of_int t :: rat) < 2 ^ 53"
      using assms(2) by (metis of_int_less_iff of_int_numeral of_int_power)
    then have "u64 * of_int t < 1"
      by (simp add: u64_def)
    then have "u64 * of_int t / of_int l < 1 / of_int l"
      using l by (simp add: divide_strict_right_mono)
    moreover have "u64 * \<bar>x\<bar> = u64 * of_int t / of_int l"
      using x0 by (simp add: abs_of_nonneg) (simp add: x_def)
    ultimately have c: "u64 * \<bar>x\<bar> < 1 / of_int l"
      by (simp only:)
    from fl_error [of x] have "fl x \<le> x + u64 * \<bar>x\<bar>" and "x - u64 * \<bar>x\<bar> \<le> fl x"
      by (simp_all add: abs_le_iff)
    with a b c have "fl x \<le> of_int k" and "of_int k - 1 < fl x"
      by linarith+
    then have "\<lceil>fl x\<rceil> = k"
      by (simp add: ceiling_eq_iff)
    then show ?thesis
      by (simp add: js_div_def x_def [symmetric] k_def [symmetric])
  qed
qed

subsection \<open>Values that agree up to a number of roundings\<close>

lemma one_minus_u64: "0 < 1 - u64" "1 - u64 \<le> 1"
  using u64_bounds by simp_all

lemma close_to_refl: "close_to 0 x x"
  by (simp add: close_to_def)

lemma close_to_fl:
  assumes "0 \<le> x"
  shows "close_to 1 (fl x) x"
proof -
  have "(1 - u64) * fl x \<le> (1 - u64) * ((1 + u64) * x)"
    using fl_bounds(2) [OF assms] one_minus_u64(1) by (simp add: mult_left_mono)
  also have "\<dots> = x - u64 * u64 * x"
    by (simp add: algebra_simps)
  also have "\<dots> \<le> x"
    using assms u64_bounds by simp
  finally show ?thesis
    using fl_bounds(1) [OF assms] by (simp add: close_to_def)
qed

lemma close_to_mono:
  assumes "close_to k x y" and "0 \<le> y" and "k \<le> k'"
  shows "close_to k' x y"
proof -
  have g: "(1 - u64) ^ k' \<le> (1 - u64) ^ k"
    using assms(3) one_minus_u64 by (intro power_decreasing) simp_all
  from assms(1) have x: "0 \<le> x"
    using assms(2) one_minus_u64(1) unfolding close_to_def
    by (meson mult_nonneg_nonneg order_trans zero_le_power less_imp_le)
  have "(1 - u64) ^ k' * y \<le> (1 - u64) ^ k * y"
    using g assms(2) by (rule mult_right_mono)
  moreover have "(1 - u64) ^ k' * x \<le> (1 - u64) ^ k * x"
    using g x by (rule mult_right_mono)
  ultimately show ?thesis
    using assms(1) unfolding close_to_def by linarith
qed

lemma close_to_nonneg:
  assumes "close_to k x y"
  shows "0 \<le> y \<Longrightarrow> 0 \<le> x" and "0 < y \<Longrightarrow> 0 < x" and "0 \<le> x \<Longrightarrow> 0 \<le> y"
proof -
  have g: "0 < (1 - u64) ^ k"
    using one_minus_u64(1) by simp
  from assms have a: "(1 - u64) ^ k * y \<le> x" and b: "(1 - u64) ^ k * x \<le> y"
    by (simp_all add: close_to_def)
  show "0 \<le> x" if "0 \<le> y"
    using a g that by (meson mult_nonneg_nonneg order_trans less_imp_le)
  show "0 < x" if "0 < y"
    using a g that by (meson mult_pos_pos less_le_trans)
  show "0 \<le> y" if "0 \<le> x"
    using b g that by (meson mult_nonneg_nonneg order_trans less_imp_le)
qed

lemma close_to_trans:
  assumes "close_to a x y" and "close_to b y z"
  shows "close_to (a + b) x z"
proof -
  have ga: "0 \<le> (1 - u64) ^ a" and gb: "0 \<le> (1 - u64) ^ b"
    using one_minus_u64(1) by simp_all
  from assms have 1: "(1 - u64) ^ a * y \<le> x" and 2: "(1 - u64) ^ a * x \<le> y"
    and 3: "(1 - u64) ^ b * z \<le> y" and 4: "(1 - u64) ^ b * y \<le> z"
    by (simp_all add: close_to_def)
  have "(1 - u64) ^ (a + b) * z = (1 - u64) ^ a * ((1 - u64) ^ b * z)"
    by (simp add: power_add)
  also have "\<dots> \<le> (1 - u64) ^ a * y"
    using 3 ga by (rule mult_left_mono)
  finally have l: "(1 - u64) ^ (a + b) * z \<le> x"
    using 1 by linarith
  have "(1 - u64) ^ (a + b) * x = (1 - u64) ^ b * ((1 - u64) ^ a * x)"
    by (simp add: power_add)
  also have "\<dots> \<le> (1 - u64) ^ b * y"
    using 2 gb by (rule mult_left_mono)
  finally have "(1 - u64) ^ (a + b) * x \<le> z"
    using 4 by linarith
  with l show ?thesis
    by (simp add: close_to_def)
qed

lemma close_to_add:
  assumes "close_to k x y" and "close_to k x' y'"
  shows "close_to k (x + x') (y + y')"
  using assms by (simp add: close_to_def distrib_left)

lemma close_to_mult:
  assumes "close_to k x y" and "0 \<le> c"
  shows "close_to k (x * c) (y * c)"
proof -
  from assms(1) have "(1 - u64) ^ k * y \<le> x" and "(1 - u64) ^ k * x \<le> y"
    by (simp_all add: close_to_def)
  then have "(1 - u64) ^ k * y * c \<le> x * c" and "(1 - u64) ^ k * x * c \<le> y * c"
    using assms(2) by (simp_all add: mult_right_mono)
  then show ?thesis
    by (simp add: close_to_def mult.assoc)
qed

lemma close_to_divide:
  assumes "close_to a x y" and "close_to b t s" and "0 < t" and "0 < s" and "0 \<le> x" and "0 \<le> y"
  shows "close_to (a + b) (x / t) (y / s)"
proof -
  define ga where "ga = (1 - u64) ^ a"
  define gb where "gb = (1 - u64) ^ b"
  have ga: "0 < ga" and gb: "0 < gb"
    using one_minus_u64(1) by (simp_all add: ga_def gb_def)
  from assms(1,2) have 1: "ga * y \<le> x" and 2: "ga * x \<le> y"
    and 3: "gb * s \<le> t" and 4: "gb * t \<le> s"
    by (simp_all add: close_to_def ga_def gb_def)
  have st: "0 < s * t"
    using assms(3,4) by simp
  have "ga * gb * (y / s) * (s * t) = (ga * y) * (gb * t)"
    using assms(3,4) by simp
  also have "\<dots> \<le> x * (gb * t)"
    using 1 gb assms(3) by (intro mult_right_mono) simp_all
  also have "\<dots> \<le> x * s"
    using 4 assms(5) by (rule mult_left_mono)
  also have "\<dots> = (x / t) * (s * t)"
    using assms(3) by simp
  finally have "ga * gb * (y / s) * (s * t) \<le> x / t * (s * t)" .
  then have l: "ga * gb * (y / s) \<le> x / t"
    using st by (rule mult_right_le_imp_le)
  have "ga * gb * (x / t) * (s * t) = (ga * x) * (gb * s)"
    using assms(3,4) by simp
  also have "\<dots> \<le> y * (gb * s)"
    using 2 gb assms(4) by (intro mult_right_mono) simp_all
  also have "\<dots> \<le> y * t"
    using 3 assms(6) by (rule mult_left_mono)
  also have "\<dots> = (y / s) * (s * t)"
    using assms(4) by simp
  finally have "ga * gb * (x / t) * (s * t) \<le> y / s * (s * t)" .
  then have "ga * gb * (x / t) \<le> y / s"
    using st by (rule mult_right_le_imp_le)
  with l show ?thesis
    by (simp add: close_to_def power_add ga_def gb_def)
qed

lemma power_one_minus_ge: "1 - of_nat k * u64 \<le> (1 - u64) ^ k"
proof (induction k)
  case 0
  then show ?case by simp
next
  case (Suc k)
  have "1 - of_nat (Suc k) * u64 \<le> (1 - u64) * (1 - of_nat k * u64)"
  proof -
    have "(1 - u64) * (1 - of_nat k * u64)
        = 1 - of_nat (Suc k) * u64 + of_nat k * (u64 * u64)"
      by (simp add: algebra_simps)
    moreover have "0 \<le> of_nat k * (u64 * u64)"
      using u64_bounds by simp
    ultimately show ?thesis
      by linarith
  qed
  also have "\<dots> \<le> (1 - u64) * (1 - u64) ^ k"
    using Suc one_minus_u64(1) by (simp add: mult_left_mono)
  finally show ?case
    by simp
qed

section \<open>Properties of the primitives\<close>

lemma length_insert_by [simp]: "length (insert_by cmp x ys) = Suc (length ys)"
  by (induction ys) simp_all

lemma length_array_sort [simp]: "length (array_sort cmp xs) = length xs"
  by (induction xs) simp_all

lemma mset_insert_by [simp]: "mset (insert_by cmp x ys) = add_mset x (mset ys)"
  by (induction ys) simp_all

lemma mset_array_sort [simp]: "mset (array_sort cmp xs) = mset xs"
  by (induction xs) simp_all

lemma set_array_sort [simp]: "set (array_sort cmp xs) = set xs"
  by (metis mset_array_sort set_mset_mset)

lemma sum_list_array_sort: "sum_list (map f (array_sort cmp xs)) = (sum_list (map f xs) :: rat)"
proof -
  have "mset (map f (array_sort cmp xs)) = mset (map f xs)"
    by simp
  then show ?thesis
    by (metis sum_mset_sum_list)
qed

lemma relative_index_le [simp]: "relative_index k n \<le> n"
  unfolding relative_index_def by (cases "k < 0") auto

lemma slice_0: "slice xs 0 e = take (relative_index e (length xs)) xs"
  by (simp add: slice_def relative_index_def)

lemma slice_0_append_slice_from: "slice xs 0 k @ slice_from xs k = xs"
  by (simp add: slice_0 slice_from_def)

lemma slice_from_eq_drop_head: "slice_from xs k = drop (length (slice xs 0 k)) xs"
  by (simp add: slice_0 slice_from_def relative_index_def min_def)

lemma slice_0_whole: "int (length xs) \<le> k \<Longrightarrow> slice xs 0 k = xs"
  by (simp add: slice_0 relative_index_def)

lemma slice_0_nonneg: "0 \<le> k \<Longrightarrow> slice xs 0 k = take (nat k) xs"
  by (simp add: slice_0 relative_index_def min_def)

section \<open>The share computation and its Others entry\<close>

lemma others_entry_fields:
  "countryName (others_entry t rest) = ''Others''"
  "revenue (others_entry t rest) = totalRevenue_of rest"
  "percentage (others_entry t rest)
     = roundToDecimals (Some (share_percentage t (totalRevenue_of rest))) 2"
  by (simp_all add: others_entry_def Let_def)

lemma share_result_shape:
  "getRevenueShareByCountry limit docs =
     map (share_of (totalRevenue_of docs)) (topCountries limit docs)
     @ (if int (length docs) > limit
        then [others_entry (totalRevenue_of docs)
                (drop (length (topCountries limit docs)) (array_sort by_revenue_desc docs))]
        else [])"
  by (simp add: getRevenueShareByCountry_def Let_def topCountries_def slice_from_eq_drop_head)

text \<open>
  C2. The share computation emits an Others entry exactly when there are more records than
  the limit. The entry comes last, its label is \<open>Others\<close>, and its value is the sum of the
  metric, added up as the total is, over the records of the sorted array behind the head,
  which are taken by position; its percentage is computed as for a head entry. When the
  limit is at least the number of records, the output is the head entries alone, one for
  each record.
\<close>

theorem share_others_iff_more_than_limit:
  "(int (length docs) > limit \<longrightarrow>
      (\<exists>others.
         getRevenueShareByCountry limit docs
           = map (share_of (totalRevenue_of docs)) (topCountries limit docs) @ [others]
         \<and> last (getRevenueShareByCountry limit docs) = others
         \<and> countryName others = ''Others''
         \<and> revenue others
             = totalRevenue_of
                 (drop (length (topCountries limit docs)) (array_sort by_revenue_desc docs))
         \<and> percentage others
             = roundToDecimals (Some (share_percentage (totalRevenue_of docs) (revenue others))) 2))
   \<and> (\<not> int (length docs) > limit \<longrightarrow>
      getRevenueShareByCountry limit docs
        = map (share_of (totalRevenue_of docs)) (topCountries limit docs)
      \<and> length (getRevenueShareByCountry limit docs) = length docs)
   \<and> topCountries limit docs
        @ drop (length (topCountries limit docs)) (array_sort by_revenue_desc docs)
      = array_sort by_revenue_desc docs"
proof (intro conjI impI)
  assume more: "int (length docs) > limit"
  let ?rest = "drop (length (topCountries limit docs)) (array_sort by_revenue_desc docs)"
  let ?others = "others_entry (totalRevenue_of docs) ?rest"
  have shape: "getRevenueShareByCountry limit docs
      = map (share_of (totalRevenue_of docs)) (topCountries limit docs) @ [?others]"
    using more by (simp add: share_result_shape)
  moreover from shape have "last (getRevenueShareByCountry limit docs) = ?others"
    by simp
  ultimately show "\<exists>others.
         getRevenueShareByCountry limit docs
           = map (share_of (totalRevenue_of docs)) (topCountries limit docs) @ [others]
         \<and> last (getRevenueShareByCountry limit docs) = others
         \<and> countryName others = ''Others''
         \<and> revenue others = totalRevenue_of ?rest
         \<and> percentage others
             = roundToDecimals (Some (share_percentage (totalRevenue_of docs) (revenue others))) 2"
    using others_entry_fields [of "totalRevenue_of docs" ?rest] by (intro exI [of _ ?others]) simp
next
  assume "\<not> int (length docs) > limit"
  then show "getRevenueShareByCountry limit docs
        = map (share_of (totalRevenue_of docs)) (topCountries limit docs)"
    by (simp add: share_result_shape)
next
  assume "\<not> int (length docs) > limit"
  then show "length (getRevenueShareByCountry limit docs) = length docs"
    by (simp add: share_result_shape topCountries_def slice_0_whole)
next
  show "topCountries limit docs
        @ drop (length (topCountries limit docs)) (array_sort by_revenue_desc docs)
      = array_sort by_revenue_desc docs"
    by (simp add: topCountries_def slice_0)
qed

lemma scenario_sorted:
  "array_sort by_revenue_desc scenario_countries =
     [\<lparr>Country = ''B'', Yearly_Revenue = Num 300\<rparr>,
      \<lparr>Country = ''C'', Yearly_Revenue = Num 200\<rparr>,
      \<lparr>Country = ''A'', Yearly_Revenue = Num 100\<rparr>]"
  by code_simp

theorem share_others_iff_more_than_limit_witness:
  "int (length scenario_countries) > 2
   \<and> last (getRevenueShareByCountry 2 scenario_countries)
       = \<lparr>countryName = ''Others'', revenue = 100, percentage = fl (1667 / 100)\<rparr>
   \<and> \<not> int (length scenario_countries) > 3
   \<and> length (getRevenueShareByCountry 3 scenario_countries) = 3"
proof -
  have more: "int (length scenario_countries) > 2"
    by (simp add: scenario_countries_def)
  have all: "\<not> int (length scenario_countries) > 3"
    by (simp add: scenario_countries_def)
  have total: "totalRevenue_of scenario_countries = 600"
    by code_simp
  have head: "length (topCountries 2 scenario_countries) = 2"
    by (simp add: topCountries_def slice_0_nonneg scenario_countries_def)
  from share_others_iff_more_than_limit [where limit = 2 and docs = scenario_countries] more
  obtain others where o: "last (getRevenueShareByCountry 2 scenario_countries) = others"
      "countryName others = ''Others''"
      "revenue others = totalRevenue_of
         (drop (length (topCountries 2 scenario_countries))
            (array_sort by_revenue_desc scenario_countries))"
      "percentage others
         = roundToDecimals (Some (share_percentage (totalRevenue_of scenario_countries)
             (revenue others))) 2"
    by blast
  have "totalRevenue_of [\<lparr>Country = ''A'', Yearly_Revenue = Num 100\<rparr>] = 100"
    by code_simp
  then have r: "revenue others = 100"
    using o(3) by (simp add: head scenario_sorted)
  have "roundToDecimals (Some (share_percentage 600 100)) 2 = fl (1667 / 100)"
    by code_simp
  then have p: "percentage others = fl (1667 / 100)"
    using o(4) by (simp add: r total)
  have "others = \<lparr>countryName = ''Others'', revenue = 100, percentage = fl (1667 / 100)\<rparr>"
    using o(2) r p by (cases others) simp
  moreover from share_others_iff_more_than_limit [where limit = 3 and docs = scenario_countries] all
  have "length (getRevenueShareByCountry 3 scenario_countries) = length scenario_countries"
    by blast
  ultimately show ?thesis
    using more all o(1) by (simp add: scenario_countries_def)
qed

section \<open>Percentages under a zero total\<close>

lemma Math_round_0 [simp]: "Math_round 0 = 0"
  by (simp add: Math_round_def floor_eq_iff)

lemma roundToDecimals_zero [simp]: "roundToDecimals (Some 0) d = 0"
  by (simp add: roundToDecimals_def js_mul_def js_div_def)

lemma share_percentage_zero_total [simp]: "share_percentage 0 r = 0"
  by (simp add: share_percentage_def)

text \<open>
  C3. When the metric total is 0, every percentage of the share computation is exactly 0:
  those of the head entries and of the Others entry, those of the regions summary, and
  the three of the customer statistics, whose total is the number of customers. The guard
  \<open>total > 0\<close> keeps the division away from a zero total.
\<close>

theorem percentages_zero_when_total_zero:
  "(totalRevenue_of docs = 0 \<longrightarrow>
      (\<forall>e \<in> set (getRevenueShareByCountry limit docs). percentage e = 0))
   \<and> (totalRevenue (getRegionsSummary rdocs) = 0 \<longrightarrow>
      (\<forall>r \<in> set (regions (getRegionsSummary rdocs)). region_percentage r = 0))
   \<and> (totalCustomers (getCustomerStatistics cdocs) = 0 \<longrightarrow>
      growthPercentage (getCustomerStatistics cdocs) = 0
      \<and> declinePercentage (getCustomerStatistics cdocs) = 0
      \<and> noChangePercentage (getCustomerStatistics cdocs) = 0)"
proof (intro conjI impI)
  assume "totalRevenue_of docs = 0"
  then show "\<forall>e \<in> set (getRevenueShareByCountry limit docs). percentage e = 0"
    by (auto simp: share_result_shape share_of_def others_entry_def Let_def)
next
  assume "totalRevenue (getRegionsSummary rdocs) = 0"
  then show "\<forall>r \<in> set (regions (getRegionsSummary rdocs)). region_percentage r = 0"
    by (auto simp: getRegionsSummary_def Let_def)
next
  assume z: "totalCustomers (getCustomerStatistics cdocs) = 0"
  then show "growthPercentage (getCustomerStatistics cdocs) = 0"
    by (simp add: getCustomerStatistics_def Let_def)
  from z show "declinePercentage (getCustomerStatistics cdocs) = 0"
    by (simp add: getCustomerStatistics_def Let_def)
  from z show "noChangePercentage (getCustomerStatistics cdocs) = 0"
    by (simp add: getCustomerStatistics_def Let_def)
qed

lemma map_all_zero:
  assumes "\<forall>x \<in> set xs. f x = (0::rat)"
  shows "map f xs = replicate (length xs) 0"
  using assms by (induction xs) simp_all

theorem percentages_zero_when_total_zero_witness:
  "totalRevenue_of zero_countries = 0
   \<and> map percentage (getRevenueShareByCountry 1 zero_countries) = [0, 0]
   \<and> totalRevenue (getRegionsSummary zero_regions) = 0
   \<and> map region_percentage (regions (getRegionsSummary zero_regions)) = [0, 0]
   \<and> totalCustomers (getCustomerStatistics []) = 0
   \<and> growthPercentage (getCustomerStatistics []) = 0
   \<and> declinePercentage (getCustomerStatistics []) = 0
   \<and> noChangePercentage (getCustomerStatistics []) = 0"
proof -
  have c: "totalRevenue_of zero_countries = 0"
    by code_simp
  have r: "totalRevenue (getRegionsSummary zero_regions) = 0"
    by code_simp
  have s: "totalCustomers (getCustomerStatistics []) = 0"
    by (simp add: getCustomerStatistics_def)
  have n: "length (getRevenueShareByCountry 1 zero_countries) = Suc (Suc 0)"
    by (simp add: share_result_shape topCountries_def slice_0_nonneg zero_countries_def)
  have m: "length (regions (getRegionsSummary zero_regions)) = Suc (Suc 0)"
    by (simp add: getRegionsSummary_def zero_regions_def Let_def)
  from percentages_zero_when_total_zero
         [where docs = zero_countries and limit = 1 and rdocs = zero_regions and cdocs = "[]"]
       c r s
  have z: "\<forall>e \<in> set (getRevenueShareByCountry 1 zero_countries). percentage e = 0"
      "\<forall>r \<in> set (regions (getRegionsSummary zero_regions)). region_percentage r = 0"
      "growthPercentage (getCustomerStatistics []) = 0"
      "declinePercentage (getCustomerStatistics []) = 0"
      "noChangePercentage (getCustomerStatistics []) = 0"
    by blast+
  from map_all_zero [OF z(1)] map_all_zero [OF z(2)] c r s z(3-5) show ?thesis
    by (simp add: n m)
qed

section \<open>Filtering and pagination\<close>

lemma matches_build_query:
  "matches (build_query m p) d
     = spec_keeps m p (orZero (Quarter_4_Revenue d)) (orZero (Variance d))"
  by (cases "Quarter_4_Revenue d"; cases "Variance d")
     (auto simp: matches_def build_query_def spec_keeps_def orZero_def)

lemma set_cursor_limit: "set (cursor_limit n xs) \<subseteq> set xs"
  by (auto simp: cursor_limit_def dest: in_set_takeD)

lemma set_cursor_sort_desc [simp]: "set (cursor_sort_desc key xs) = set xs"
  by (simp add: cursor_sort_desc_def)

lemma length_cursor_sort_desc [simp]: "length (cursor_sort_desc key xs) = length xs"
  by (simp add: cursor_sort_desc_def)

lemma page_rows_filtered:
  assumes "cursor_skip s (cursor_sort_desc key (find_docs (build_query m p) docs)) = Inr skipped"
    and "d \<in> set (cursor_limit n skipped)"
  shows "spec_keeps m p (orZero (Quarter_4_Revenue d)) (orZero (Variance d))"
proof -
  from assms(1) have "skipped = drop (nat s) (cursor_sort_desc key (find_docs (build_query m p) docs))"
    by (auto simp: cursor_skip_def split: if_splits)
  then have "set skipped \<subseteq> set (find_docs (build_query m p) docs)"
    using set_drop_subset [of "nat s" "cursor_sort_desc key (find_docs (build_query m p) docs)"]
    by simp
  with assms(2) set_cursor_limit [of n skipped]
  have "d \<in> set (find_docs (build_query m p) docs)"
    by blast
  then show ?thesis
    by (simp add: find_docs_def matches_build_query)
qed

lemma countDocuments_spec:
  "countDocuments (build_query m p) docs
     = int (length (filter (\<lambda>d. spec_keeps m p (orZero (Quarter_4_Revenue d)) (orZero (Variance d))) docs))"
proof -
  have "matches (build_query m p)
          = (\<lambda>d. spec_keeps m p (orZero (Quarter_4_Revenue d)) (orZero (Variance d)))"
    by (rule ext) (rule matches_build_query)
  then show ?thesis
    by (simp add: countDocuments_def)
qed

lemma quarterly_cases:
  "getCustomerQuarterlyData f docs =
     (case cursor_skip ((filter_page f - 1) * filter_limit f)
             (cursor_sort_desc Variance
                (find_docs (build_query (filter_minQ4Revenue f) (filter_positiveGrowthOnly f)) docs)) of
        Inl e \<Rightarrow> Inl e
      | Inr skipped \<Rightarrow>
          Inr \<lparr>customers = map customer_row_of (cursor_limit (filter_limit f) skipped),
               pagination =
                 \<lparr>currentPage = filter_page f,
                  totalPages = Math_ceil (divide_number
                     (of_int (countDocuments (build_query (filter_minQ4Revenue f) (filter_positiveGrowthOnly f)) docs))
                     (of_int (filter_limit f))),
                  totalItems = countDocuments (build_query (filter_minQ4Revenue f) (filter_positiveGrowthOnly f)) docs,
                  itemsPerPage = filter_limit f\<rparr>\<rparr>)"
  by (simp add: getCustomerQuarterlyData_def Let_def)

lemma analysis_cases:
  "getCustomerAnalysis f docs =
     (case cursor_skip ((filter_page f - 1) * filter_limit f)
             (cursor_sort_desc Quarter_4_Revenue
                (find_docs (build_query (filter_minQ4Revenue f) (filter_positiveGrowthOnly f)) docs)) of
        Inl e \<Rightarrow> Inl e
      | Inr skipped \<Rightarrow>
          Inr \<lparr>customers = map analysis_row_of (cursor_limit (filter_limit f) skipped),
               pagination =
                 \<lparr>currentPage = filter_page f,
                  totalPages = Math_ceil (divide_number
                     (of_int (countDocuments (build_query (filter_minQ4Revenue f) (filter_positiveGrowthOnly f)) docs))
                     (of_int (filter_limit f))),
                  totalItems = countDocuments (build_query (filter_minQ4Revenue f) (filter_positiveGrowthOnly f)) docs,
                  itemsPerPage = filter_limit f\<rparr>,
               filters = \<lparr>minQ4Revenue = filter_minQ4Revenue f,
                          positiveGrowthOnly = filter_positiveGrowthOnly f\<rparr>\<rparr>)"
  by (simp add: getCustomerAnalysis_def Let_def)

text \<open>
  C6. Every record that the filter-and-paginate operation returns satisfies the filter
  predicate, and the reported \<open>totalItems\<close> is the number of records of the full input
  that satisfy it, whatever the page and the page size. This holds for the quarterly data
  and for the analysis. The operation returns unless the skip \<open>(page - 1) * limit\<close> is
  negative, which the database rejects.
\<close>

theorem filter_paginate_sound:
  "(case getCustomerQuarterlyData f docs of
      Inl e \<Rightarrow> (filter_page f - 1) * filter_limit f < 0
    | Inr r \<Rightarrow>
        (\<forall>c \<in> set (customers r).
            spec_keeps (filter_minQ4Revenue f) (filter_positiveGrowthOnly f) (q4Revenue c) (variance c))
        \<and> totalItems (pagination r)
            = int (length (filter (\<lambda>d. spec_keeps (filter_minQ4Revenue f) (filter_positiveGrowthOnly f)
                                          (orZero (Quarter_4_Revenue d)) (orZero (Variance d))) docs)))
   \<and> (case getCustomerAnalysis f docs of
      Inl e \<Rightarrow> (filter_page f - 1) * filter_limit f < 0
    | Inr r \<Rightarrow>
        (\<forall>c \<in> set (customers r).
            spec_keeps (filter_minQ4Revenue f) (filter_positiveGrowthOnly f) (q4Revenue c) (variance c))
        \<and> totalItems (pagination r)
            = int (length (filter (\<lambda>d. spec_keeps (filter_minQ4Revenue f) (filter_positiveGrowthOnly f)
                                          (orZero (Quarter_4_Revenue d)) (orZero (Variance d))) docs)))"
proof
  show "case getCustomerQuarterlyData f docs of
      Inl e \<Rightarrow> (filter_page f - 1) * filter_limit f < 0
    | Inr r \<Rightarrow>
        (\<forall>c \<in> set (customers r).
            spec_keeps (filter_minQ4Revenue f) (filter_positiveGrowthOnly f) (q4Revenue c) (variance c))
        \<and> totalItems (pagination r)
            = int (length (filter (\<lambda>d. spec_keeps (filter_minQ4Revenue f) (filter_positiveGrowthOnly f)
                                          (orZero (Quarter_4_Revenue d)) (orZero (Variance d))) docs))"
  proof (cases "getCustomerQuarterlyData f docs")
    case (Inl e)
    then show ?thesis
      by (auto simp: quarterly_cases cursor_skip_def split: if_splits)
  next
    case (Inr r)
    then obtain skipped where sk: "cursor_skip ((filter_page f - 1) * filter_limit f)
             (cursor_sort_desc Variance
                (find_docs (build_query (filter_minQ4Revenue f) (filter_positiveGrowthOnly f)) docs)) = Inr skipped"
      and cs: "customers r = map customer_row_of (cursor_limit (filter_limit f) skipped)"
      and ti: "totalItems (pagination r)
                 = countDocuments (build_query (filter_minQ4Revenue f) (filter_positiveGrowthOnly f)) docs"
      by (auto simp: quarterly_cases split: sum.splits)
    have "spec_keeps (filter_minQ4Revenue f) (filter_positiveGrowthOnly f) (q4Revenue c) (variance c)"
      if "c \<in> set (customers r)" for c
    proof -
      from that cs obtain d where "d \<in> set (cursor_limit (filter_limit f) skipped)"
        and "c = customer_row_of d" by auto
      with page_rows_filtered [OF sk] show ?thesis
        by (simp add: customer_row_of_def)
    qed
    with ti Inr show ?thesis
      by (simp add: countDocuments_spec)
  qed
next
  show "case getCustomerAnalysis f docs of
      Inl e \<Rightarrow> (filter_page f - 1) * filter_limit f < 0
    | Inr r \<Rightarrow>
        (\<forall>c \<in> set (customers r).
            spec_keeps (filter_minQ4Revenue f) (filter_positiveGrowthOnly f) (q4Revenue c) (variance c))
        \<and> totalItems (pagination r)
            = int (length (filter (\<lambda>d. spec_keeps (filter_minQ4Revenue f) (filter_positiveGrowthOnly f)
                                          (orZero (Quarter_4_Revenue d)) (orZero (Variance d))) docs))"
  proof (cases "getCustomerAnalysis f docs")
    case (Inl e)
    then show ?thesis
      by (auto simp: analysis_cases cursor_skip_def split: if_splits)
  next
    case (Inr r)
    then obtain skipped where sk: "cursor_skip ((filter_page f - 1) * filter_limit f)
             (cursor_sort_desc Quarter_4_Revenue
                (find_docs (build_query (filter_minQ4Revenue f) (filter_positiveGrowthOnly f)) docs)) = Inr skipped"
      and cs: "customers r = map analysis_row_of (cursor_limit (filter_limit f) skipped)"
      and ti: "totalItems (pagination r)
                 = countDocuments (build_query (filter_minQ4Revenue f) (filter_positiveGrowthOnly f)) docs"
      by (auto simp: analysis_cases split: sum.splits)
    have "spec_keeps (filter_minQ4Revenue f) (filter_positiveGrowthOnly f) (q4Revenue c) (variance c)"
      if "c \<in> set (customers r)" for c
    proof -
      from that cs obtain d where "d \<in> set (cursor_limit (filter_limit f) skipped)"
        and "c = analysis_row_of d" by auto
      with page_rows_filtered [OF sk] show ?thesis
        by (simp add: analysis_row_of_def)
    qed
    with ti Inr show ?thesis
      by (simp add: countDocuments_spec)
  qed
qed


theorem filter_paginate_sound_witness:
  "(\<exists>r. getCustomerQuarterlyData scenario_filters scenario_customers = Inr r
        \<and> map customerName (customers r) = [''Y'']
        \<and> (\<forall>c \<in> set (customers r). spec_keeps 150 False (q4Revenue c) (variance c))
        \<and> totalItems (pagination r) = 1)
   \<and> (\<exists>r. getCustomerAnalysis scenario_filters scenario_customers = Inr r
        \<and> map customerName (customers r) = [''Y'']
        \<and> (\<forall>c \<in> set (customers r). spec_keeps 150 False (q4Revenue c) (variance c))
        \<and> totalItems (pagination r) = 1)"
proof -
  have f: "filter_minQ4Revenue scenario_filters = 150"
      "filter_positiveGrowthOnly scenario_filters = False"
    by (simp_all add: scenario_filters_def)
  have n: "int (length (filter (\<lambda>d. spec_keeps 150 False (orZero (Quarter_4_Revenue d))
                                      (orZero (Variance d))) scenario_customers)) = 1"
    by (simp add: scenario_customers_def spec_keeps_def orZero_def)
  have q: "\<exists>r. getCustomerQuarterlyData scenario_filters scenario_customers = Inr r
             \<and> map customerName (customers r) = [''Y'']"
    by (simp add: quarterly_cases scenario_filters_def scenario_customers_def cursor_skip_def
        cursor_sort_desc_def cursor_limit_def find_docs_def matches_def build_query_def
        customer_row_of_def)
  have a: "\<exists>r. getCustomerAnalysis scenario_filters scenario_customers = Inr r
             \<and> map customerName (customers r) = [''Y'']"
    by (simp add: analysis_cases scenario_filters_def scenario_customers_def cursor_skip_def
        cursor_sort_desc_def cursor_limit_def find_docs_def matches_def build_query_def
        analysis_row_of_def)
  from q a filter_paginate_sound [of scenario_filters scenario_customers] show ?thesis
    by (auto simp: f n)
qed

section \<open>Pages beyond the last one\<close>

lemma ceiling_times_ge:
  fixes t l :: int
  assumes "1 \<le> l"
  shows "t \<le> \<lceil>(of_int t :: rat) / of_int l\<rceil> * l"
proof -
  have pos: "(0::rat) < of_int l"
    using assms by simp
  have "(of_int t :: rat) / of_int l \<le> of_int \<lceil>(of_int t :: rat) / of_int l\<rceil>"
    by (rule le_of_int_ceiling)
  then have "(of_int t :: rat) \<le> of_int \<lceil>(of_int t :: rat) / of_int l\<rceil> * of_int l"
    using pos_divide_le_eq [OF pos] by blast
  then have "(of_int t :: rat) \<le> of_int (\<lceil>(of_int t :: rat) / of_int l\<rceil> * l)"
    by simp
  then show ?thesis
    by (simp only: of_int_le_iff)
qed

lemma skip_covers_all:
  fixes t l p :: int
  assumes "1 \<le> l" and "\<lceil>(of_int t :: rat) / of_int l\<rceil> < p"
  shows "t \<le> (p - 1) * l"
proof -
  from assms(2) have "\<lceil>(of_int t :: rat) / of_int l\<rceil> \<le> p - 1"
    by simp
  with assms(1) have "\<lceil>(of_int t :: rat) / of_int l\<rceil> * l \<le> (p - 1) * l"
    by (simp add: mult_right_mono)
  with ceiling_times_ge [OF assms(1), of t] show ?thesis
    by linarith
qed

lemma total_pages_eq:
  fixes t l :: int
  assumes "0 \<le> t" and "t < 2 ^ 53" and "1 \<le> l"
  shows "Math_ceil (divide_number (of_int t) (of_int l))
     = Finite (of_int \<lceil>(of_int t :: rat) / of_int l\<rceil>)"
  using assms ceiling_js_div [OF assms] by (simp add: divide_number_def Math_ceil_def)

lemma pagination_block_eq:
  assumes "1 \<le> limit" and "0 \<le> total'" and "total' < 2 ^ 53"
  shows "pagination_block (paginatedResponse rows page limit total' msg) =
     \<lparr>currentPage = page,
      totalPages = Finite (of_int \<lceil>(of_int total' :: rat) / of_int limit\<rceil>),
      totalItems = total',
      itemsPerPage = limit,
      hasNextPage = (page < \<lceil>(of_int total' :: rat) / of_int limit\<rceil>),
      hasPrevPage = (page > 1),
      nextPage = (if page < \<lceil>(of_int total' :: rat) / of_int limit\<rceil> then Some (page + 1) else None),
      prevPage = (if page > 1 then Some (page - 1) else None)\<rparr>"
  by (simp add: paginatedResponse_def Let_def total_pages_eq [OF assms(2,3,1)] less_number_def)

lemma cursor_limit_Nil [simp]: "cursor_limit n [] = []"
  by (simp add: cursor_limit_def)

lemma page_beyond_rows:
  fixes docs :: "customer_doc list"
  assumes "1 \<le> limit" and "\<lceil>(of_int (countDocuments q docs) :: rat) / of_int limit\<rceil> < page"
  shows "cursor_skip ((page - 1) * limit) (cursor_sort_desc key (find_docs q docs)) = Inr []"
proof -
  from skip_covers_all [OF assms]
  have le: "countDocuments q docs \<le> (page - 1) * limit" .
  have "0 \<le> countDocuments q docs"
    by (simp add: countDocuments_def)
  with le have "0 \<le> (page - 1) * limit"
    by linarith
  moreover from le have "length (cursor_sort_desc key (find_docs q docs)) \<le> nat ((page - 1) * limit)"
    by (simp add: countDocuments_def find_docs_def)
  ultimately show ?thesis
    by (simp add: cursor_skip_def)
qed

lemma total_items_nonneg: "0 \<le> total_items f docs"
  by (simp add: total_items_def countDocuments_def)

lemma quarterly_beyond:
  assumes "1 \<le> filter_limit f"
    and "\<lceil>(of_int (total_items f docs) :: rat) / of_int (filter_limit f)\<rceil> < filter_page f"
  shows "\<exists>pages. getCustomerQuarterlyData f docs =
     Inr \<lparr>customers = [],
          pagination = \<lparr>currentPage = filter_page f,
                        totalPages = pages,
                        totalItems = total_items f docs,
                        itemsPerPage = filter_limit f\<rparr>\<rparr>"
  using assms page_beyond_rows [of "filter_limit f" _ docs "filter_page f" Variance]
  by (simp add: quarterly_cases total_items_def)

lemma analysis_beyond:
  assumes "1 \<le> filter_limit f"
    and "\<lceil>(of_int (total_items f docs) :: rat) / of_int (filter_limit f)\<rceil> < filter_page f"
  shows "\<exists>pages. getCustomerAnalysis f docs =
     Inr \<lparr>customers = [],
          pagination = \<lparr>currentPage = filter_page f,
                        totalPages = pages,
                        totalItems = total_items f docs,
                        itemsPerPage = filter_limit f\<rparr>,
          filters = \<lparr>minQ4Revenue = filter_minQ4Revenue f,
                     positiveGrowthOnly = filter_positiveGrowthOnly f\<rparr>\<rparr>"
  using assms page_beyond_rows [of "filter_limit f" _ docs "filter_page f" Quarter_4_Revenue]
  by (simp add: analysis_cases total_items_def)

text \<open>
  C7. With a page size of at least 1 and fewer than \<open>2^53\<close> matching records, a page number
  beyond the last page, \<open>page > ceil (totalItems / pageSize)\<close>, gets a response with an
  empty record list and \<open>hasNextPage = false\<close>. For every page the pagination block reports
  \<open>totalPages = ceil (totalItems / pageSize)\<close>, \<open>hasNextPage = (page < totalPages)\<close>,
  \<open>hasPrevPage = (page > 1)\<close>, and in \<open>nextPage\<close> and \<open>prevPage\<close> the adjacent page number,
  or \<open>null\<close> where there is none.
\<close>

theorem page_beyond_last_is_empty:
  "(1 \<le> filter_limit f \<and> total_items f docs < 2 ^ 53
      \<and> \<lceil>(of_int (total_items f docs) :: rat) / of_int (filter_limit f)\<rceil> < filter_page f \<longrightarrow>
      (\<exists>resp. quarterly_data_reply f docs = Ok200 resp
         \<and> data resp = [] \<and> hasNextPage (pagination_block resp) = False
         \<and> nextPage (pagination_block resp) = None
         \<and> totalItems (pagination_block resp) = total_items f docs)
      \<and> (\<exists>resp. analysis_reply f docs = Ok200 resp
         \<and> data resp = [] \<and> hasNextPage (pagination_block resp) = False
         \<and> nextPage (pagination_block resp) = None
         \<and> totalItems (pagination_block resp) = total_items f docs))
   \<and> (1 \<le> limit \<and> 0 \<le> total' \<and> total' < 2 ^ 53 \<longrightarrow>
      pagination_block (paginatedResponse rows page limit total' msg) =
        \<lparr>currentPage = page,
         totalPages = Finite (of_int \<lceil>(of_int total' :: rat) / of_int limit\<rceil>),
         totalItems = total',
         itemsPerPage = limit,
         hasNextPage = (page < \<lceil>(of_int total' :: rat) / of_int limit\<rceil>),
         hasPrevPage = (page > 1),
         nextPage = (if page < \<lceil>(of_int total' :: rat) / of_int limit\<rceil> then Some (page + 1) else None),
         prevPage = (if page > 1 then Some (page - 1) else None)\<rparr>)"
proof (intro conjI impI)
  assume h: "1 \<le> filter_limit f \<and> total_items f docs < 2 ^ 53
      \<and> \<lceil>(of_int (total_items f docs) :: rat) / of_int (filter_limit f)\<rceil> < filter_page f"
  then have l: "1 \<le> filter_limit f" and t: "total_items f docs < 2 ^ 53"
    and beyond: "\<not> filter_page f < \<lceil>(of_int (total_items f docs) :: rat) / of_int (filter_limit f)\<rceil>"
    by auto
  note block = pagination_block_eq [OF l total_items_nonneg t]
  from h quarterly_beyond [of f docs] have q: "quarterly_data_reply f docs =
      Ok200 (paginatedResponse [] (filter_page f) (filter_limit f) (total_items f docs)
               ''Customer quarterly data retrieved successfully'')"
    by (auto simp: quarterly_data_reply_def)
  from h analysis_beyond [of f docs] have a: "analysis_reply f docs =
      Ok200 (paginatedResponse [] (filter_page f) (filter_limit f) (total_items f docs)
               ''Customer analysis data retrieved successfully'')"
    by (auto simp: analysis_reply_def)
  show "\<exists>resp. quarterly_data_reply f docs = Ok200 resp
         \<and> data resp = [] \<and> hasNextPage (pagination_block resp) = False
         \<and> nextPage (pagination_block resp) = None
         \<and> totalItems (pagination_block resp) = total_items f docs"
    using beyond by (simp add: q block) (simp add: paginatedResponse_def Let_def)
  show "\<exists>resp. analysis_reply f docs = Ok200 resp
         \<and> data resp = [] \<and> hasNextPage (pagination_block resp) = False
         \<and> nextPage (pagination_block resp) = None
         \<and> totalItems (pagination_block resp) = total_items f docs"
    using beyond by (simp add: a block) (simp add: paginatedResponse_def Let_def)
next
  assume "1 \<le> limit \<and> 0 \<le> total' \<and> total' < 2 ^ 53"
  then show "pagination_block (paginatedResponse rows page limit total' msg) =
        \<lparr>currentPage = page,
         totalPages = Finite (of_int \<lceil>(of_int total' :: rat) / of_int limit\<rceil>),
         totalItems = total',
         itemsPerPage = limit,
         hasNextPage = (page < \<lceil>(of_int total' :: rat) / of_int limit\<rceil>),
         hasPrevPage = (page > 1),
         nextPage = (if page < \<lceil>(of_int total' :: rat) / of_int limit\<rceil> then Some (page + 1) else None),
         prevPage = (if page > 1 then Some (page - 1) else None)\<rparr>"
    by (intro pagination_block_eq) simp_all
qed

theorem page_beyond_last_is_empty_witness:
  "1 \<le> filter_limit page_three
   \<and> total_items page_three five_customers < 2 ^ 53
   \<and> \<lceil>(of_int (total_items page_three five_customers) :: rat) / of_int (filter_limit page_three)\<rceil>
       < filter_page page_three
   \<and> total_items page_three five_customers = 5
   \<and> (\<exists>resp. quarterly_data_reply page_three five_customers = Ok200 resp
         \<and> data resp = [] \<and> hasNextPage (pagination_block resp) = False
         \<and> nextPage (pagination_block resp) = None
         \<and> totalItems (pagination_block resp) = 5)
   \<and> pagination_block (paginatedResponse ([] :: customer_row list) 3 10 5 ''m'') =
        \<lparr>currentPage = 3, totalPages = Finite 1, totalItems = 5, itemsPerPage = 10,
         hasNextPage = False, hasPrevPage = True, nextPage = None, prevPage = Some 2\<rparr>"
proof -
  have t: "total_items page_three five_customers = 5"
    by (simp add: total_items_def page_three_def five_customers_def countDocuments_def
        matches_def build_query_def)
  have l: "filter_limit page_three = 10" and p: "filter_page page_three = 3"
    by (simp_all add: page_three_def)
  have c: "\<lceil>(of_int 5 :: rat) / of_int 10\<rceil> = 1"
    by (simp add: ceiling_eq_iff)
  have h: "1 \<le> filter_limit page_three \<and> total_items page_three five_customers < 2 ^ 53
      \<and> \<lceil>(of_int (total_items page_three five_customers) :: rat) / of_int (filter_limit page_three)\<rceil>
          < filter_page page_three"
    using c by (simp add: t l p)
  have g: "(1::int) \<le> 10 \<and> (0::int) \<le> 5 \<and> (5::int) < 2 ^ 53"
    by simp
  from page_beyond_last_is_empty [where f = page_three and docs = five_customers
      and limit = 10 and rows = "[] :: customer_row list" and page = 3 and total' = 5 and msg = "''m''"]
    h g c
  show ?thesis
    by (simp add: t)
qed

section \<open>Growth distribution\<close>

lemma sign_classes_partition:
  "length (filter (\<lambda>x. g x > (0::rat)) xs) + length (filter (\<lambda>x. g x < 0) xs)
     + length (filter (\<lambda>x. g x = 0) xs) = length xs"
  by (induction xs) auto

lemma statistics_fields:
  "totalCustomers (getCustomerStatistics cs) = length cs"
  "customersWithGrowth (getCustomerStatistics cs) = length (filter (\<lambda>c. orZero (Variance c) > 0) cs)"
  "customersWithDecline (getCustomerStatistics cs) = length (filter (\<lambda>c. orZero (Variance c) < 0) cs)"
  "customersNoChange (getCustomerStatistics cs) = length (filter (\<lambda>c. orZero (Variance c) = 0) cs)"
  "growthPercentage (getCustomerStatistics cs)
     = (if length cs > 0
        then js_mul (js_div (of_nat (customersWithGrowth (getCustomerStatistics cs))) (of_nat (length cs))) 100
        else 0)"
  "declinePercentage (getCustomerStatistics cs)
     = (if length cs > 0
        then js_mul (js_div (of_nat (customersWithDecline (getCustomerStatistics cs))) (of_nat (length cs))) 100
        else 0)"
  "noChangePercentage (getCustomerStatistics cs)
     = (if length cs > 0
        then js_mul (js_div (of_nat (customersNoChange (getCustomerStatistics cs))) (of_nat (length cs))) 100
        else 0)"
  by (simp_all add: getCustomerStatistics_def Let_def)

lemma percentage_close:
  assumes "0 \<le> a" and "0 < b"
  shows "close_to 2 (js_mul (js_div a b) 100) (a / b * 100)"
proof -
  have q: "0 \<le> a / b"
    using assms by simp
  have "close_to 1 (js_div a b) (a / b)"
    unfolding js_div_def using q by (rule close_to_fl)
  then have 1: "close_to 1 (js_div a b * 100) (a / b * 100)"
    by (rule close_to_mult) simp
  have "0 \<le> js_div a b"
    unfolding js_div_def using q by (rule fl_nonneg)
  then have "close_to 1 (js_mul (js_div a b) 100) (js_div a b * 100)"
    unfolding js_mul_def by (intro close_to_fl) simp
  from close_to_trans [OF this 1] show ?thesis
    by (simp only: one_add_one)
qed

lemma close_to_100:
  assumes "close_to 2 s 100"
  shows "\<bar>s - 100\<bar> \<le> 1 / 10 ^ 13"
proof -
  from assms have lo: "(1 - u64) ^ 2 * 100 \<le> s" and hi: "(1 - u64) ^ 2 * s \<le> 100"
    by (simp_all add: close_to_def)
  have g: "1 - 2 * u64 \<le> (1 - u64) ^ 2"
    using power_one_minus_ge [of 2] by simp
  have "0 \<le> s"
    using close_to_nonneg(1) [OF assms] by simp
  with g hi have "s * (1 - 2 * u64) \<le> 100"
    by (metis mult.commute mult_right_mono order_trans)
  moreover have pos: "0 < 1 - 2 * u64"
    by (simp add: u64_def)
  ultimately have "s \<le> 100 / (1 - 2 * u64)"
    by (simp only: pos_le_divide_eq)
  moreover have "100 / (1 - 2 * u64) \<le> 100 + 1 / 10 ^ 13"
    by (simp add: u64_def)
  ultimately have up: "s \<le> 100 + 1 / 10 ^ 13"
    by (rule order_trans)
  from g lo have "(1 - 2 * u64) * 100 \<le> s"
    by (meson mult_right_mono order_trans zero_le_numeral)
  moreover have "100 - 1 / 10 ^ 13 \<le> (1 - 2 * u64) * 100"
    by (simp add: u64_def)
  ultimately have "100 - 1 / 10 ^ 13 \<le> s"
    by (rule order_trans [rotated])
  with up show ?thesis
    by linarith
qed

text \<open>
  C8, as the code has it. The counts of customers with positive variance, with negative
  variance and with variance 0 (an absent variance counts as 0) add up to the number of
  customers. Each percentage is the quotient of a count by the number of customers, times
  100, in binary64: when there is a customer the three add up to 100 within \<open>10^-13\<close>,
  and when there is none each is exactly 0.
\<close>

theorem growth_distribution_total:
  "customersWithGrowth (getCustomerStatistics cs) + customersWithDecline (getCustomerStatistics cs)
     + customersNoChange (getCustomerStatistics cs) = length cs
   \<and> customersWithGrowth (getCustomerStatistics cs)
       = length (filter (\<lambda>c. orZero (Variance c) > 0) cs)
   \<and> customersWithDecline (getCustomerStatistics cs)
       = length (filter (\<lambda>c. orZero (Variance c) < 0) cs)
   \<and> customersNoChange (getCustomerStatistics cs)
       = length (filter (\<lambda>c. orZero (Variance c) = 0) cs)
   \<and> (cs \<noteq> [] \<longrightarrow>
        \<bar>growthPercentage (getCustomerStatistics cs) + declinePercentage (getCustomerStatistics cs)
          + noChangePercentage (getCustomerStatistics cs) - 100\<bar> \<le> 1 / 10 ^ 13)
   \<and> (cs = [] \<longrightarrow>
        growthPercentage (getCustomerStatistics cs) = 0
        \<and> declinePercentage (getCustomerStatistics cs) = 0
        \<and> noChangePercentage (getCustomerStatistics cs) = 0)"
proof -
  let ?s = "getCustomerStatistics cs"
  have counts: "customersWithGrowth ?s + customersWithDecline ?s + customersNoChange ?s = length cs"
    by (simp add: statistics_fields(2-4) sign_classes_partition)
  have "\<bar>growthPercentage ?s + declinePercentage ?s + noChangePercentage ?s - 100\<bar> \<le> 1 / 10 ^ 13"
    if "cs \<noteq> []"
  proof -
    from that have n: "(0::rat) < of_nat (length cs)"
      by simp
    have exact: "of_nat (customersWithGrowth ?s) / of_nat (length cs) * 100
        + of_nat (customersWithDecline ?s) / of_nat (length cs) * 100
        + of_nat (customersNoChange ?s) / of_nat (length cs) * (100::rat)
        = of_nat (customersWithGrowth ?s + customersWithDecline ?s + customersNoChange ?s)
            / of_nat (length cs) * 100"
      by (simp add: add_divide_distrib distrib_right)
    also have "\<dots> = 100"
      using n by (simp add: counts)
    finally have e: "of_nat (customersWithGrowth ?s) / of_nat (length cs) * 100
        + of_nat (customersWithDecline ?s) / of_nat (length cs) * 100
        + of_nat (customersNoChange ?s) / of_nat (length cs) * (100::rat) = 100" .
    have pct: "growthPercentage ?s
          = js_mul (js_div (of_nat (customersWithGrowth ?s)) (of_nat (length cs))) 100"
        "declinePercentage ?s
          = js_mul (js_div (of_nat (customersWithDecline ?s)) (of_nat (length cs))) 100"
        "noChangePercentage ?s
          = js_mul (js_div (of_nat (customersNoChange ?s)) (of_nat (length cs))) 100"
      using that by (simp_all add: statistics_fields(5-7))
    have "close_to 2
        (growthPercentage ?s + declinePercentage ?s + noChangePercentage ?s)
        (of_nat (customersWithGrowth ?s) / of_nat (length cs) * 100
          + of_nat (customersWithDecline ?s) / of_nat (length cs) * 100
          + of_nat (customersNoChange ?s) / of_nat (length cs) * 100)"
      unfolding pct by (intro close_to_add percentage_close n) simp_all
    then have "close_to 2 (growthPercentage ?s + declinePercentage ?s + noChangePercentage ?s) 100"
      by (simp only: e)
    then show ?thesis
      by (rule close_to_100)
  qed
  moreover have "growthPercentage ?s = 0 \<and> declinePercentage ?s = 0 \<and> noChangePercentage ?s = 0"
    if "cs = []"
    using that by (simp add: statistics_fields(5-7))
  ultimately show ?thesis
    using counts by (simp add: statistics_fields(2-4))
qed

theorem growth_distribution_total_witness:
  "five_customers \<noteq> []
   \<and> customersWithGrowth (getCustomerStatistics five_customers) = 2
   \<and> customersWithDecline (getCustomerStatistics five_customers) = 1
   \<and> customersNoChange (getCustomerStatistics five_customers) = 2
   \<and> \<bar>growthPercentage (getCustomerStatistics five_customers)
       + declinePercentage (getCustomerStatistics five_customers)
       + noChangePercentage (getCustomerStatistics five_customers) - 100\<bar> \<le> 1 / 10 ^ 13
   \<and> growthPercentage (getCustomerStatistics []) = 0
   \<and> declinePercentage (getCustomerStatistics []) = 0
   \<and> noChangePercentage (getCustomerStatistics []) = 0"
proof -
  have ne: "five_customers \<noteq> []"
    by (simp add: five_customers_def)
  have g: "length (filter (\<lambda>c. orZero (Variance c) > 0) five_customers) = 2"
    and d: "length (filter (\<lambda>c. orZero (Variance c) < 0) five_customers) = 1"
    and z: "length (filter (\<lambda>c. orZero (Variance c) = 0) five_customers) = 2"
    by (simp_all add: five_customers_def orZero_def)
  from growth_distribution_total [of five_customers] growth_distribution_total [of "[]"] ne
  show ?thesis
    by (simp add: g d z)
qed

text \<open>
  The claim as the specification states it, a sum of exactly 100, fails for three
  customers of which one has grown, one has declined and one has not changed: each
  percentage is the binary64 value \<open>33.33333333333333\<close>, and the three add up to
  \<open>100 - 2^-46\<close>, which is also what adding them in binary64 gives.
\<close>

theorem growth_percentages_counterexample:
  "three_customers \<noteq> []
   \<and> growthPercentage (getCustomerStatistics three_customers)
       + declinePercentage (getCustomerStatistics three_customers)
       + noChangePercentage (getCustomerStatistics three_customers) = 100 - 1 / 2 ^ 46
   \<and> growthPercentage (getCustomerStatistics three_customers)
       + declinePercentage (getCustomerStatistics three_customers)
       + noChangePercentage (getCustomerStatistics three_customers) \<noteq> 100
   \<and> js_add (js_add (growthPercentage (getCustomerStatistics three_customers))
                    (declinePercentage (getCustomerStatistics three_customers)))
             (noChangePercentage (getCustomerStatistics three_customers)) = 100 - 1 / 2 ^ 46"
  by code_simp

section \<open>The success envelope\<close>

lemma successResponse_body:
  "snd (successResponse sc m d) =
     [(''success'', JBool True),
      (''message'', JString (case m of None \<Rightarrow> ''Success'' | Some x \<Rightarrow> x))]
     @ (if truthy d then [(''data'', d)] else [])"
  by (cases d) (simp_all add: successResponse_def Let_def)

text \<open>
  C10. The object that \<open>successResponse\<close> sends has the key \<open>data\<close> exactly when the data
  argument is truthy. For \<open>null\<close>, 0, \<open>false\<close> and the empty string the object is
  \<open>{success, message}\<close> alone; truthy data, which an empty array and an empty object are,
  is included as it is.
\<close>

theorem successResponse_data_iff_truthy:
  "(map_of (snd (successResponse sc m d)) ''data'' \<noteq> None) = truthy d
   \<and> (truthy d \<longrightarrow>
        map_of (snd (successResponse sc m d)) ''data'' = Some d
        \<and> map fst (snd (successResponse sc m d)) = [''success'', ''message'', ''data''])
   \<and> (\<not> truthy d \<longrightarrow>
        map fst (snd (successResponse sc m d)) = [''success'', ''message''])
   \<and> map_of (snd (successResponse sc m d)) ''success'' = Some (JBool True)
   \<and> \<not> truthy JNull \<and> \<not> truthy (JNumber 0) \<and> \<not> truthy (JBool False) \<and> \<not> truthy (JString [])
   \<and> truthy (JArray []) \<and> truthy (JObject [])"
  by (simp add: successResponse_body)

theorem successResponse_data_iff_truthy_witness:
  "truthy (JArray [])
   \<and> snd (successResponse (Some 200) (Some ''ok'') (JArray []))
       = [(''success'', JBool True), (''message'', JString ''ok''), (''data'', JArray [])]
   \<and> \<not> truthy (JNumber 0)
   \<and> snd (successResponse (Some 200) (Some ''ok'') (JNumber 0))
       = [(''success'', JBool True), (''message'', JString ''ok'')]
   \<and> snd (successResponse None None JUndefined)
       = [(''success'', JBool True), (''message'', JString ''Success'')]"
proof -
  have t: "truthy (JArray [])" and f: "\<not> truthy (JNumber 0)"
    by simp_all
  from successResponse_data_iff_truthy [of "Some 200" "Some ''ok''" "JArray []"] t
       successResponse_data_iff_truthy [of "Some 200" "Some ''ok''" "JNumber 0"] f
  show ?thesis
    by (simp add: successResponse_def)
qed

section \<open>Rounding to two decimals\<close>

lemma roundToDecimals_2:
  "roundToDecimals (Some v) 2 = js_div (of_int \<lfloor>js_mul v 100 + 1 / 2\<rfloor>) 100"
  by (simp add: roundToDecimals_def Math_round_def)

lemma frac_half_floor:
  fixes x :: rat
  assumes "frac x = 1 / 2"
  shows "\<lfloor>x + 1 / 2\<rfloor> = \<lfloor>x\<rfloor> + 1" and "\<lceil>x - 1 / 2\<rceil> = \<lfloor>x\<rfloor>"
proof -
  from assms have x: "x = of_int \<lfloor>x\<rfloor> + 1 / 2"
    by (simp add: frac_def algebra_simps)
  have "x + 1 / 2 = of_int (\<lfloor>x\<rfloor> + 1)"
    by (subst x) simp
  then show "\<lfloor>x + 1 / 2\<rfloor> = \<lfloor>x\<rfloor> + 1"
    by (metis floor_of_int)
  have "x - 1 / 2 = of_int \<lfloor>x\<rfloor>"
    by (subst x) simp
  then show "\<lceil>x - 1 / 2\<rceil> = \<lfloor>x\<rfloor>"
    by (metis ceiling_of_int)
qed

lemma away_from_zero_not_half:
  fixes x :: rat
  assumes "frac x \<noteq> 1 / 2"
  shows "\<lceil>x - 1 / 2\<rceil> = \<lfloor>x + 1 / 2\<rfloor>"
proof -
  define k where "k = \<lfloor>x + 1 / 2\<rfloor>"
  have lo: "of_int k \<le> x + 1 / 2" and hi: "x + 1 / 2 < of_int k + 1"
    unfolding k_def by linarith+
  have "of_int k \<noteq> x + 1 / 2"
  proof
    assume e: "of_int k = x + 1 / 2"
    have "of_int (k - 1) \<le> x" and "x < of_int (k - 1) + 1"
      using e by simp_all
    then have "\<lfloor>x\<rfloor> = k - 1"
      by (rule floor_unique)
    then have "frac x = x - of_int (k - 1)"
      by (simp only: frac_def)
    with e have "frac x = 1 / 2"
      by simp
    with assms show False
      by simp
  qed
  with lo hi have "of_int k - 1 < x - 1 / 2" and "x - 1 / 2 \<le> of_int k"
    by linarith+
  then have "\<lceil>x - 1 / 2\<rceil> = k"
    by (simp only: ceiling_eq_iff)
  then show ?thesis
    by (simp only: k_def)
qed

lemma scaled_sign:
  "0 \<le> v \<Longrightarrow> 0 \<le> js_mul v 100" "v < 0 \<Longrightarrow> \<not> 0 \<le> js_mul v 100"
proof -
  show "0 \<le> js_mul v 100" if "0 \<le> v"
    unfolding js_mul_def using that by (intro fl_nonneg) simp
  show "\<not> 0 \<le> js_mul v 100" if "v < 0"
  proof -
    from that have "v * 100 < 0"
      by simp
    then have "fl (v * 100) < 0"
      by (rule fl_neg)
    then show ?thesis
      by (simp add: js_mul_def)
  qed
qed

text \<open>
  C4, as the code has it. \<open>roundToDecimals\<close> with 2 decimals scales the value by 100 and
  rounds with \<open>Math.round\<close>, which sends a tie to the larger integer. For every value that
  is not negative, and for every negative value whose scaled fractional part is not one
  half, that is the rounding half away from zero. For a negative value whose scaled
  fractional part is exactly one half the integer is the one above: the tie goes towards
  zero.
\<close>

theorem roundToDecimals_half_up:
  "roundToDecimals (Some v) 2 = js_div (of_int \<lfloor>js_mul v 100 + 1 / 2\<rfloor>) 100
   \<and> (0 \<le> v \<or> frac (js_mul v 100) \<noteq> 1 / 2 \<longrightarrow> roundToDecimals (Some v) 2 = spec_round2 v)
   \<and> (v < 0 \<and> frac (js_mul v 100) = 1 / 2 \<longrightarrow>
        roundToDecimals (Some v) 2
          = js_div (of_int (round_half_away_from_zero (js_mul v 100) + 1)) 100
        \<and> roundToDecimals (Some v) 2 = js_div (of_int \<lceil>js_mul v 100\<rceil>) 100)"
proof (intro conjI impI)
  show "roundToDecimals (Some v) 2 = js_div (of_int \<lfloor>js_mul v 100 + 1 / 2\<rfloor>) 100"
    by (rule roundToDecimals_2)
next
  assume h: "0 \<le> v \<or> frac (js_mul v 100) \<noteq> 1 / 2"
  show "roundToDecimals (Some v) 2 = spec_round2 v"
  proof (cases "0 \<le> v")
    case True
    from scaled_sign(1) [OF this] show ?thesis
      by (simp add: roundToDecimals_2 spec_round2_def round_half_away_from_zero_def)
  next
    case False
    with h have "v < 0" and "frac (js_mul v 100) \<noteq> 1 / 2"
      by auto
    with scaled_sign(2) [of v] away_from_zero_not_half [of "js_mul v 100"] show ?thesis
      by (simp add: roundToDecimals_2 spec_round2_def round_half_away_from_zero_def)
  qed
next
  assume h: "v < 0 \<and> frac (js_mul v 100) = 1 / 2"
  then have neg: "\<not> 0 \<le> js_mul v 100" and half: "frac (js_mul v 100) = 1 / 2"
    using scaled_sign(2) [of v] by auto
  from neg frac_half_floor [OF half]
  show "roundToDecimals (Some v) 2
          = js_div (of_int (round_half_away_from_zero (js_mul v 100) + 1)) 100"
    by (simp add: roundToDecimals_2 round_half_away_from_zero_def)
  have "js_mul v 100 \<noteq> of_int \<lfloor>js_mul v 100\<rfloor>"
    using half by (auto simp: frac_def)
  then have "\<lceil>js_mul v 100\<rceil> = \<lfloor>js_mul v 100\<rfloor> + 1"
    by (simp add: ceiling_altdef)
  with frac_half_floor(1) [OF half]
  show "roundToDecimals (Some v) 2 = js_div (of_int \<lceil>js_mul v 100\<rceil>) 100"
    by (simp add: roundToDecimals_2)
qed

theorem roundToDecimals_half_up_witness:
  "(- 1 / 8 :: rat) < 0 \<and> frac (js_mul (- 1 / 8) 100) = 1 / 2
   \<and> js_mul (- 1 / 8) 100 = - 25 / 2
   \<and> roundToDecimals (Some (- 1 / 8)) 2 = js_div (- 12) 100
   \<and> spec_round2 (- 1 / 8) = js_div (- 13) 100
   \<and> (0 :: rat) \<le> 1 / 8
   \<and> roundToDecimals (Some (1 / 8)) 2 = js_div 13 100
   \<and> spec_round2 (1 / 8) = js_div 13 100"
proof -
  have m: "js_mul (- 1 / 8) 100 = - 25 / 2"
    by code_simp
  have n: "(- 1 / 8 :: rat) < 0 \<and> frac (js_mul (- 1 / 8) 100) = 1 / 2"
    by code_simp
  have c: "\<lceil>- 25 / 2 :: rat\<rceil> = - 12"
    by code_simp
  have p: "(0 :: rat) \<le> 1 / 8 \<or> frac (js_mul (1 / 8) 100) \<noteq> 1 / 2"
    by simp
  have s1: "spec_round2 (- 1 / 8) = js_div (- 13) 100"
    by code_simp
  have s2: "spec_round2 (1 / 8) = js_div 13 100"
    by code_simp
  from roundToDecimals_half_up [of "- 1 / 8"] n
  have "roundToDecimals (Some (- 1 / 8)) 2 = js_div (of_int \<lceil>js_mul (- 1 / 8) 100\<rceil>) 100"
    by blast
  then have r1: "roundToDecimals (Some (- 1 / 8)) 2 = js_div (- 12) 100"
    by (simp only: m c) simp
  from roundToDecimals_half_up [of "1 / 8"] p
  have "roundToDecimals (Some (1 / 8)) 2 = spec_round2 (1 / 8)"
    by blast
  with r1 n m s1 s2 show ?thesis
    by simp
qed

text \<open>
  The claim as the specification states it fails at the value \<open>-0.125\<close>: scaled by 100 it
  is \<open>-12.5\<close>, which \<open>Math.round\<close> sends to \<open>-12\<close> and not away from zero to \<open>-13\<close>. The
  result is the binary64 value of \<open>-0.12\<close> and not that of \<open>-0.13\<close>.
\<close>

theorem roundToDecimals_negative_half_counterexample:
  "(- 1 / 8 :: rat) < 0 \<and> frac (js_mul (- 1 / 8) 100) = 1 / 2
   \<and> roundToDecimals (Some (- 1 / 8)) 2 = fl (- 12 / 100)
   \<and> spec_round2 (- 1 / 8) = fl (- 13 / 100)
   \<and> roundToDecimals (Some (- 1 / 8)) 2 \<noteq> spec_round2 (- 1 / 8)"
  by code_simp

section \<open>The percentages of a share result\<close>

lemma fold_close:
  assumes "\<forall>c \<in> set cs. 0 \<le> f c" and "0 \<le> a" and "close_to k a A"
  shows "close_to (k + length cs) (foldl (\<lambda>s c. js_add s (f c)) a cs) (A + sum_list (map f cs))
         \<and> 0 \<le> foldl (\<lambda>s c. js_add s (f c)) a cs"
  using assms
proof (induction cs arbitrary: a A k)
  case Nil
  then show ?case by simp
next
  case (Cons c cs)
  from Cons.prems have fc: "0 \<le> f c" and rest: "\<forall>c \<in> set cs. 0 \<le> f c"
    by simp_all
  have sum: "0 \<le> a + f c"
    using fc Cons.prems(2) by simp
  have A: "0 \<le> A"
    using close_to_nonneg(3) [OF Cons.prems(3) Cons.prems(2)] .
  have "close_to k (f c) (f c)"
    using close_to_mono [OF close_to_refl fc] by simp
  with Cons.prems(3) have 1: "close_to k (a + f c) (A + f c)"
    by (rule close_to_add)
  have 2: "close_to 1 (js_add a (f c)) (a + f c)"
    unfolding js_add_def using sum by (rule close_to_fl)
  from close_to_trans [OF 2 1] have 3: "close_to (Suc k) (js_add a (f c)) (A + f c)"
    by simp
  have 4: "0 \<le> js_add a (f c)"
    unfolding js_add_def using sum by (rule fl_nonneg)
  from Cons.IH [OF rest 4 3] show ?case
    by (simp add: add.assoc)
qed

lemma close_to_abs:
  assumes "close_to k p e" and "0 \<le> e" and "e \<le> 100" and "k \<le> 2 ^ 34"
  shows "\<bar>p - e\<bar> \<le> 1 / 1000 \<and> 0 \<le> p"
proof -
  define g where "g = (1 - u64) ^ k"
  define h :: rat where "h = 1 - 1 / 2 ^ 19"
  from assms(1) have lo: "g * e \<le> p" and hi: "g * p \<le> e"
    by (simp_all add: close_to_def g_def)
  have "(of_nat k :: rat) \<le> 2 ^ 34"
    using assms(4) by (metis of_nat_le_iff of_nat_numeral of_nat_power)
  then have "of_nat k * u64 \<le> 2 ^ 34 * u64"
    using u64_bounds by (simp add: mult_right_mono)
  also have "\<dots> = 1 / 2 ^ 19"
    by (simp add: u64_def)
  finally have "h \<le> 1 - of_nat k * u64"
    by (simp add: h_def)
  with power_one_minus_ge [of k] have hg: "h \<le> g"
    by (simp add: g_def)
  have hpos: "0 < h"
    by (simp add: h_def)
  have p: "0 \<le> p"
    using close_to_nonneg(1) [OF assms(1) assms(2)] .
  have "h * p \<le> g * p"
    using hg p by (rule mult_right_mono)
  with hi have "h * p \<le> e"
    by linarith
  then have "p \<le> e / h"
    using hpos by (simp add: pos_le_divide_eq mult.commute)
  also have "\<dots> \<le> e + 100 * (1 / h - 1)"
  proof -
    have "0 \<le> 1 / h - 1"
      by (simp add: h_def)
    then have "e * (1 / h - 1) \<le> 100 * (1 / h - 1)"
      using assms(3) by (rule mult_right_mono [rotated])
    then show ?thesis
      by (simp add: algebra_simps)
  qed
  also have "100 * (1 / h - 1) \<le> 1 / 1000"
    by (simp add: h_def)
  finally have up: "p \<le> e + 1 / 1000"
    by simp
  have "h * e \<le> g * e"
    using hg assms(2) by (rule mult_right_mono)
  with lo have "h * e \<le> p"
    by linarith
  moreover have "e - 1 / 1000 \<le> h * e"
  proof -
    have "(1 - h) * e \<le> (1 - h) * 100"
      using assms(3) by (intro mult_left_mono) (simp_all add: h_def)
    also have "\<dots> \<le> 1 / 1000"
      by (simp add: h_def)
    finally show ?thesis
      by (simp add: algebra_simps)
  qed
  ultimately have "e - 1 / 1000 \<le> p"
    by linarith
  with up p show ?thesis
    by linarith
qed

lemma round2_error:
  assumes "0 \<le> p" and "p \<le> 101"
  shows "\<bar>roundToDecimals (Some p) 2 - p\<bar> \<le> 1 / 200 + 1 / 10 ^ 12"
proof -
  define y where "y = js_mul p 100"
  define k where "k = \<lfloor>y + 1 / 2\<rfloor>"
  have q: "roundToDecimals (Some p) 2 = fl (of_int k / 100)"
    by (simp add: roundToDecimals_2 k_def y_def js_div_def)
  have p100: "0 \<le> p * 100"
    using assms(1) by simp
  have y: "\<bar>y - p * 100\<bar> \<le> u64 * (p * 100)"
    using fl_error [of "p * 100"] p100 by (simp add: y_def js_mul_def)
  have y0: "0 \<le> y"
    unfolding y_def js_mul_def using p100 by (rule fl_nonneg)
  have k1: "of_int k \<le> y + 1 / 2" and k2: "y + 1 / 2 < of_int k + 1"
    unfolding k_def by linarith+
  have k0: "0 \<le> k"
    using y0 unfolding k_def by simp
  then have kq: "(0::rat) \<le> of_int k / 100"
    by simp
  have u: "u64 * (p * 100) \<le> u64 * 10100"
    using assms(2) u64_bounds by (intro mult_left_mono) simp_all
  have ub: "u64 * 10100 \<le> 1 / 100"
    by (simp add: u64_def)
  have yb: "\<bar>y - p * 100\<bar> \<le> 1 / 100"
    using y u ub by (meson order_trans)
  have kb: "of_int k / 100 \<le> (102 :: rat)"
    using k1 yb assms(2) by linarith
  have "\<bar>fl (of_int k / 100) - of_int k / 100\<bar> \<le> u64 * (of_int k / 100)"
    using fl_error [of "of_int k / 100"] kq by simp
  also have "\<dots> \<le> u64 * 102"
    using kb u64_bounds by (intro mult_left_mono) simp_all
  finally have e1: "\<bar>fl (of_int k / 100) - of_int k / 100\<bar> \<le> u64 * 102" .
  have e2: "\<bar>of_int k / 100 - y / 100\<bar> \<le> 1 / 200"
    using k1 k2 by linarith
  have e3: "\<bar>y / 100 - p\<bar> \<le> u64 * 101"
  proof -
    define d where "d = u64 * 101"
    have "u64 * 10100 = d * 100"
      by (simp add: d_def)
    with y u have "\<bar>y - p * 100\<bar> \<le> d * 100"
      by (metis order_trans)
    then show ?thesis
      unfolding d_def [symmetric] by linarith
  qed
  define b :: rat where "b = 1 / 10 ^ 12"
  have "u64 * 102 + u64 * 101 \<le> b"
    by (simp add: u64_def b_def)
  with e1 e2 e3 have "\<bar>fl (of_int k / 100) - p\<bar> \<le> 1 / 200 + b"
    by linarith
  then show ?thesis
    by (simp only: q b_def)
qed

lemma entry_error:
  assumes "close_to k p e" and "0 \<le> e" and "e \<le> 100" and "k \<le> 2 ^ 34"
  shows "\<bar>roundToDecimals (Some p) 2 - e\<bar> \<le> 1 / 100"
proof -
  from close_to_abs [OF assms] have a: "\<bar>p - e\<bar> \<le> 1 / 1000" and p: "0 \<le> p"
    by simp_all
  from a assms(3) have "p \<le> 101"
    by linarith
  define b :: rat where "b = 1 / 10 ^ 12"
  have "b \<le> 1 / 1000"
    by (simp add: b_def)
  moreover from round2_error [OF p \<open>p \<le> 101\<close>]
  have "\<bar>roundToDecimals (Some p) 2 - p\<bar> \<le> 1 / 200 + b"
    by (simp only: b_def)
  ultimately show ?thesis
    using a by linarith
qed

lemma totalRevenue_close:
  assumes "\<forall>c \<in> set cs. 0 \<le> yearlyRevenue_of c"
  shows "close_to (length cs) (totalRevenue_of cs) (sum_list (map yearlyRevenue_of cs))"
    and "0 \<le> totalRevenue_of cs"
proof -
  have eq: "totalRevenue_of cs = foldl (\<lambda>s c. js_add s (yearlyRevenue_of c)) 0 cs"
    by (simp add: totalRevenue_of_def yearlyRevenue_of_def)
  from fold_close [OF assms order_refl close_to_refl]
  show "close_to (length cs) (totalRevenue_of cs) (sum_list (map yearlyRevenue_of cs))"
    and "0 \<le> totalRevenue_of cs"
    by (simp_all add: eq)
qed

lemma share_close:
  assumes "close_to a r R" and "close_to b t s" and "0 < t" and "0 < s" and "0 \<le> r" and "0 \<le> R"
  shows "close_to (2 + (a + b)) (share_percentage t r) (R / s * 100)"
proof -
  have q: "0 \<le> r / t"
    using assms(3,5) by simp
  have 1: "close_to (a + b) (r / t) (R / s)"
    using assms by (rule close_to_divide)
  have 2: "close_to 1 (js_div r t) (r / t)"
    unfolding js_div_def using q by (rule close_to_fl)
  have 3: "close_to (1 + (a + b)) (js_div r t * 100) (R / s * 100)"
    using close_to_trans [OF 2 1] by (rule close_to_mult) simp
  have "0 \<le> js_div r t"
    unfolding js_div_def using q by (rule fl_nonneg)
  then have 4: "close_to 1 (js_mul (js_div r t) 100) (js_div r t * 100)"
    unfolding js_mul_def by (intro close_to_fl) simp
  have "close_to (1 + (1 + (a + b))) (js_mul (js_div r t) 100) (R / s * 100)"
    using 4 3 by (rule close_to_trans)
  then show ?thesis
    using assms(3) by (simp add: share_percentage_def)
qed

lemma sum_list_nonneg_rat:
  assumes "\<forall>x \<in> set xs. (0::rat) \<le> f x"
  shows "0 \<le> sum_list (map f xs)"
  using assms by (induction xs) simp_all

lemma member_le_sum_list_rat:
  assumes "\<forall>x \<in> set xs. (0::rat) \<le> f x" and "c \<in> set xs"
  shows "f c \<le> sum_list (map f xs)"
  using assms
proof (induction xs)
  case Nil
  then show ?case by simp
next
  case (Cons x xs)
  then have x: "0 \<le> f x" and rest: "\<forall>x \<in> set xs. 0 \<le> f x"
    by simp_all
  from sum_list_nonneg_rat [OF rest] have s: "0 \<le> sum_list (map f xs)" .
  show ?case
  proof (cases "c = x")
    case True
    with s show ?thesis by simp
  next
    case False
    with Cons.prems(2) have "c \<in> set xs"
      by simp
    from Cons.IH [OF rest this] x show ?thesis
      by simp
  qed
qed

lemma sum_list_within:
  assumes "list_all2 (\<lambda>p e. \<bar>p - e\<bar> \<le> (d::rat)) ps es"
  shows "\<bar>sum_list ps - sum_list es\<bar> \<le> d * of_nat (length ps)"
  using assms
proof (induction rule: list_all2_induct)
  case Nil
  then show ?case by simp
next
  case (Cons p ps e es)
  then have a: "\<bar>p - e\<bar> \<le> d"
    and b: "\<bar>sum_list ps - sum_list es\<bar> \<le> d * of_nat (length ps)"
    by simp_all
  define w where "w = d * of_nat (length ps)"
  from a b have "\<bar>(p + sum_list ps) - (e + sum_list es)\<bar> \<le> d + w"
    unfolding w_def [symmetric] by linarith
  then show ?case
    by (simp add: algebra_simps w_def)
qed

lemma share_entries_within:
  assumes nonneg: "\<forall>c \<in> set docs. 0 \<le> yearlyRevenue_of c"
    and len: "length docs \<le> 2 ^ 32"
    and pos: "totalRevenue_of docs > 0"
  shows "\<exists>es. sum_list es = 100
      \<and> list_all2 (\<lambda>p e. \<bar>p - e\<bar> \<le> 1 / 100)
           (map percentage (getRevenueShareByCountry limit docs)) es"
proof -
  let ?f = yearlyRevenue_of
  define t where "t = totalRevenue_of docs"
  define s where "s = sum_list (map ?f docs)"
  define sorted where "sorted = array_sort by_revenue_desc docs"
  define head where "head = topCountries limit docs"
  define rest where "rest = drop (length head) sorted"
  define e where "e = (\<lambda>c. ?f c / s * 100)"
  define eo where "eo = sum_list (map ?f rest) / s * 100"
  define es where "es = map e head @ (if int (length docs) > limit then [eo] else [])"
  have t: "close_to (length docs) t s"
    unfolding t_def s_def using nonneg by (rule totalRevenue_close)
  have tpos: "0 < t"
    using pos by (simp add: t_def)
  have spos: "0 < s"
  proof -
    from t have "(1 - u64) ^ length docs * t \<le> s"
      by (simp add: close_to_def)
    moreover have "0 < (1 - u64) ^ length docs * t"
      using one_minus_u64(1) tpos by simp
    ultimately show ?thesis
      by linarith
  qed
  have split: "head @ rest = sorted"
    by (simp add: head_def rest_def sorted_def topCountries_def slice_0)
  have sub: "set head \<subseteq> set docs" "set rest \<subseteq> set docs"
  proof -
    have "set head \<union> set rest = set docs"
      using split by (metis set_append set_array_sort sorted_def)
    then show "set head \<subseteq> set docs" "set rest \<subseteq> set docs"
      by auto
  qed
  have nh: "\<forall>c \<in> set head. 0 \<le> ?f c" and nr: "\<forall>c \<in> set rest. 0 \<le> ?f c"
    using nonneg sub by auto
  have total: "sum_list (map ?f head) + sum_list (map ?f rest) = s"
  proof -
    have "sum_list (map ?f head) + sum_list (map ?f rest) = sum_list (map ?f (head @ rest))"
      by simp
    also have "\<dots> = s"
      by (simp only: split sorted_def sum_list_array_sort s_def)
    finally show ?thesis .
  qed
  have lenr: "length rest \<le> length docs"
    by (simp add: rest_def sorted_def)
  have k: "2 + (a + length docs) \<le> (2::nat) ^ 34" if "a \<le> length docs" for a
  proof -
    have "(2::nat) + (2 ^ 32 + 2 ^ 32) \<le> 2 ^ 34"
      by simp
    with that len show ?thesis
      by linarith
  qed
  have head_entry: "\<bar>roundToDecimals (Some (share_percentage t (?f c))) 2 - e c\<bar> \<le> 1 / 100"
    if "c \<in> set head" for c
  proof -
    from that nh have fc: "0 \<le> ?f c"
      by simp
    from that sub have "c \<in> set docs"
      by auto
    with nonneg have "?f c \<le> s"
      unfolding s_def by (intro member_le_sum_list_rat) simp_all
    then have le: "e c \<le> 100"
      using spos by (simp add: e_def pos_divide_le_eq)
    have ge: "0 \<le> e c"
      using fc spos by (simp add: e_def)
    have "close_to (2 + (0 + length docs)) (share_percentage t (?f c)) (e c)"
      unfolding e_def using close_to_refl t tpos spos fc fc by (rule share_close)
    from entry_error [OF this ge le k [of 0]] show ?thesis
      by simp
  qed
  have others: "\<bar>percentage (others_entry t rest) - eo\<bar> \<le> 1 / 100"
  proof -
    have r: "close_to (length rest) (totalRevenue_of rest) (sum_list (map ?f rest))"
      and r0: "0 \<le> totalRevenue_of rest"
      using totalRevenue_close [OF nr] by simp_all
    have R0: "0 \<le> sum_list (map ?f rest)"
      using nr by (rule sum_list_nonneg_rat)
    have "0 \<le> sum_list (map ?f head)"
      using nh by (rule sum_list_nonneg_rat)
    with total have "sum_list (map ?f rest) \<le> s"
      by linarith
    then have le: "eo \<le> 100"
      using spos by (simp add: eo_def pos_divide_le_eq)
    have ge: "0 \<le> eo"
      using R0 spos by (simp add: eo_def)
    have "close_to (2 + (length rest + length docs))
        (share_percentage t (totalRevenue_of rest)) eo"
      unfolding eo_def using r t tpos spos r0 R0 by (rule share_close)
    from entry_error [OF this ge le k [OF lenr]] show ?thesis
      by (simp only: others_entry_fields)
  qed
  have heads: "list_all2 (\<lambda>p e. \<bar>p - e\<bar> \<le> 1 / 100)
      (map percentage (map (share_of t) head)) (map e head)"
    using head_entry
    by (simp add: list_all2_map1 list_all2_map2 list_all2_same share_of_def Let_def
        yearlyRevenue_of_def)
  have all: "list_all2 (\<lambda>p e. \<bar>p - e\<bar> \<le> 1 / 100)
      (map percentage (getRevenueShareByCountry limit docs)) es"
  proof (cases "int (length docs) > limit")
    case True
    then have "map percentage (getRevenueShareByCountry limit docs)
        = map percentage (map (share_of t) head) @ [percentage (others_entry t rest)]"
      by (simp add: share_result_shape t_def head_def rest_def sorted_def)
    moreover have "es = map e head @ [eo]"
      using True by (simp add: es_def)
    moreover have "list_all2 (\<lambda>p e. \<bar>p - e\<bar> \<le> 1 / 100) [percentage (others_entry t rest)] [eo]"
      using others by simp
    ultimately show ?thesis
      using heads by (simp only: list_all2_appendI)
  next
    case False
    then have "map percentage (getRevenueShareByCountry limit docs)
        = map percentage (map (share_of t) head)"
      by (simp add: share_result_shape t_def head_def)
    moreover have "es = map e head"
      using False by (simp add: es_def)
    ultimately show ?thesis
      using heads by (simp only:)
  qed
  have "sum_list es = 100"
  proof (cases "int (length docs) > limit")
    case True
    then have "sum_list es = sum_list (map e head) + eo"
      by (simp add: es_def)
    also have "sum_list (map e head) = sum_list (map ?f head) / s * 100"
      unfolding e_def by (induction head) (simp_all add: add_divide_distrib distrib_right)
    also have "sum_list (map ?f head) / s * 100 + eo
        = (sum_list (map ?f head) + sum_list (map ?f rest)) / s * 100"
      by (simp add: eo_def add_divide_distrib distrib_right)
    also have "\<dots> = 100"
      using spos by (simp add: total)
    finally show ?thesis .
  next
    case False
    then have "rest = []"
      by (simp add: rest_def head_def sorted_def topCountries_def slice_0_whole)
    with total have h: "sum_list (map ?f head) = s"
      by simp
    from False have "sum_list es = sum_list (map e head)"
      by (simp add: es_def)
    also have "\<dots> = sum_list (map ?f head) / s * 100"
      unfolding e_def by (induction head) (simp_all add: add_divide_distrib distrib_right)
    also have "\<dots> = 100"
      using spos by (simp add: h)
    finally show ?thesis .
  qed
  with all show ?thesis
    by blast
qed




section \<open>Ranking\<close>

text \<open>
  The two sorts of the services compare by a key. The facts about \<open>array_sort\<close> are
  proved once, for a comparison function that agrees with a total preorder \<open>ge\<close>:
  \<open>cmp a b \<le> 0\<close> exactly when \<open>ge a b\<close>.
\<close>

lemma sorted_insert_by:
  assumes agree: "\<And>a b. (cmp a b \<le> 0) = ge a b"
    and total: "\<And>a b. ge a b \<or> ge b a"
    and trans: "\<And>a b c. ge a b \<Longrightarrow> ge b c \<Longrightarrow> ge a c"
    and "sorted_wrt ge ys"
  shows "sorted_wrt ge (insert_by cmp x ys)"
  using assms(4)
proof (induction ys)
  case Nil
  then show ?case by simp
next
  case (Cons y ys)
  show ?case
  proof (cases "cmp x y \<le> 0")
    case True
    then have xy: "ge x y"
      by (simp add: agree)
    with Cons.prems have "\<forall>z \<in> set ys. ge x z"
      by (auto intro: trans)
    with xy Cons.prems True show ?thesis
      by simp
  next
    case False
    then have "ge y x"
      using total [of x y] by (simp add: agree)
    with Cons False show ?thesis
      by (auto simp: set_mset_mset [symmetric] simp del: set_mset_mset)
  qed
qed

lemma sorted_array_sort:
  assumes "\<And>a b. (cmp a b \<le> 0) = ge a b"
    and "\<And>a b. ge a b \<or> ge b a"
    and "\<And>a b c. ge a b \<Longrightarrow> ge b c \<Longrightarrow> ge a c"
  shows "sorted_wrt ge (array_sort cmp xs)"
  by (induction xs) (simp_all add: sorted_insert_by [OF assms])

lemma filter_insert_by:
  assumes agree: "\<And>a b. (cmp a b \<le> 0) = ge a b"
    and trans: "\<And>a b c. ge a b \<Longrightarrow> ge b c \<Longrightarrow> ge a c"
    and "sorted_wrt ge ys"
  shows "filter (\<lambda>y. ge y k \<and> ge k y) (insert_by cmp x ys)
     = (if ge x k \<and> ge k x then x # filter (\<lambda>y. ge y k \<and> ge k y) ys
        else filter (\<lambda>y. ge y k \<and> ge k y) ys)"
  using assms(3)
proof (induction ys)
  case Nil
  then show ?case by simp
next
  case (Cons y ys)
  show ?case
  proof (cases "cmp x y \<le> 0")
    case True
    then show ?thesis by simp
  next
    case False
    then have nxy: "\<not> ge x y"
      by (simp add: agree)
    have "\<not> (ge y k \<and> ge k y)" if "ge x k \<and> ge k x"
    proof
      assume "ge y k \<and> ge k y"
      with that have "ge x y"
        by (blast intro: trans)
      with nxy show False ..
    qed
    with Cons False show ?thesis
      by auto
  qed
qed

lemma array_sort_stable:
  assumes "\<And>a b. (cmp a b \<le> 0) = ge a b"
    and "\<And>a b. ge a b \<or> ge b a"
    and "\<And>a b c. ge a b \<Longrightarrow> ge b c \<Longrightarrow> ge a c"
  shows "filter (\<lambda>y. ge y k \<and> ge k y) (array_sort cmp xs) = filter (\<lambda>y. ge y k \<and> ge k y) xs"
proof (induction xs)
  case Nil
  then show ?case by simp
next
  case (Cons x xs)
  have "sorted_wrt ge (array_sort cmp xs)"
    by (rule sorted_array_sort [OF assms])
  from filter_insert_by [of cmp ge, OF assms(1) assms(3) this] Cons show ?case
    by simp
qed

lemma by_revenue_desc_agrees:
  "(by_revenue_desc a b \<le> 0) = (yearlyRevenue_of a \<ge> yearlyRevenue_of b)"
  by (simp add: by_revenue_desc_def js_sub_def fl_le_0_iff yearlyRevenue_of_def)

lemma revenue_sorted:
  "sorted_wrt (\<lambda>a b. yearlyRevenue_of a \<ge> yearlyRevenue_of b) (array_sort by_revenue_desc docs)"
  by (rule sorted_array_sort [OF by_revenue_desc_agrees]) auto

lemma revenue_sort_stable:
  "filter (\<lambda>c. yearlyRevenue_of c = k) (array_sort by_revenue_desc docs)
     = filter (\<lambda>c. yearlyRevenue_of c = k) docs"
proof (cases "\<exists>c. yearlyRevenue_of c = k")
  case True
  then obtain c0 where c0: "yearlyRevenue_of c0 = k" ..
  have same: "(\<lambda>c. yearlyRevenue_of c = k)
      = (\<lambda>c. yearlyRevenue_of c \<ge> yearlyRevenue_of c0 \<and> yearlyRevenue_of c0 \<ge> yearlyRevenue_of c)"
    by (auto simp: c0)
  have "filter (\<lambda>c. yearlyRevenue_of c \<ge> yearlyRevenue_of c0 \<and> yearlyRevenue_of c0 \<ge> yearlyRevenue_of c)
          (array_sort by_revenue_desc docs)
      = filter (\<lambda>c. yearlyRevenue_of c \<ge> yearlyRevenue_of c0 \<and> yearlyRevenue_of c0 \<ge> yearlyRevenue_of c) docs"
    by (rule array_sort_stable
          [of by_revenue_desc "\<lambda>a b. yearlyRevenue_of a \<ge> yearlyRevenue_of b" c0, OF by_revenue_desc_agrees])
       auto
  then show ?thesis
    by (simp only: same)
next
  case False
  then show ?thesis
    by simp
qed

lemma bson_compare_agrees:
  "(bson_compare (key b) (key a) \<le> 0) = field_ge (key a) (key b)"
  by (cases "key a"; cases "key b") (simp_all add: bson_compare_def field_ge_def)

lemma field_ge_total: "field_ge a b \<or> field_ge b a"
  by (cases a; cases b) (auto simp: field_ge_def)

lemma field_ge_trans: "field_ge a b \<Longrightarrow> field_ge b c \<Longrightarrow> field_ge a c"
  by (cases a; cases b; cases c) (auto simp: field_ge_def)

lemma cursor_sorted:
  "sorted_wrt (\<lambda>a b. field_ge (key a) (key b)) (cursor_sort_desc key docs)"
  unfolding cursor_sort_desc_def
proof (rule sorted_array_sort)
  show "(bson_compare (key b) (key a) \<le> 0) = field_ge (key a) (key b)" for a b
    by (rule bson_compare_agrees)
  show "field_ge (key a) (key b) \<or> field_ge (key b) (key a)" for a b
    by (rule field_ge_total)
  show "field_ge (key a) (key b) \<Longrightarrow> field_ge (key b) (key c) \<Longrightarrow> field_ge (key a) (key c)" for a b c
    by (rule field_ge_trans)
qed

lemma mset_cursor_sort_desc [simp]: "mset (cursor_sort_desc key docs) = mset docs"
  by (simp add: cursor_sort_desc_def)

lemma top_countries_db:
  "getTopCountriesByRevenue limit docs
     = map country_row_of (cursor_limit limit (cursor_sort_desc Yearly_Revenue docs))"
  by (simp add: getTopCountriesByRevenue_def country_row_of_def [abs_def])


lemma cursor_limit_positive: "1 \<le> n \<Longrightarrow> cursor_limit n xs = take (nat n) xs"
  by (simp add: cursor_limit_def)

lemma cursor_limit_whole: "n = 0 \<or> int (length xs) \<le> n \<Longrightarrow> cursor_limit n xs = xs"
  by (auto simp: cursor_limit_def)




section \<open>The limit that a query yields\<close>

lemma digit_char: "d < 10 \<Longrightarrow> digit_of (''0123456789'' ! d) = Some d"
proof -
  assume "d < 10"
  then have "d \<in> {0, 1, 2, 3, 4, 5, 6, 7, 8, 9}"
    by auto
  then show ?thesis
    by (auto simp: digit_of_def)
qed

lemma digit_char_plain:
  "d < 10 \<Longrightarrow> \<not> is_white (''0123456789'' ! d) \<and> ''0123456789'' ! d \<noteq> CHR ''-''
     \<and> ''0123456789'' ! d \<noteq> CHR ''+'' \<and> ''0123456789'' ! d \<noteq> CHR ''x''
     \<and> ''0123456789'' ! d \<noteq> CHR ''X''"
proof -
  assume "d < 10"
  then have "d \<in> {0, 1, 2, 3, 4, 5, 6, 7, 8, 9}"
    by auto
  then show ?thesis
    by (auto simp: is_white_def)
qed

lemma decimal_digits_all: "\<forall>c \<in> set (decimal_digits n). is_digit c"
proof (induction n rule: decimal_digits.induct)
  case (1 n)
  show ?case
  proof (cases "n < 10")
    case True
    then show ?thesis
      by (subst decimal_digits.simps) (auto simp: is_digit_def)
  next
    case False
    have "n mod 10 < 10"
      by simp
    then have "is_digit (''0123456789'' ! (n mod 10))"
      unfolding is_digit_def by blast
    with False 1 show ?thesis
      by (subst decimal_digits.simps) auto
  qed
qed

lemma decimal_digits_not_Nil [simp]: "decimal_digits n \<noteq> []"
  by (subst decimal_digits.simps) simp

lemma digits_value_append:
  "\<forall>c \<in> set xs. is_digit c \<Longrightarrow>
   digits_value 10 acc (xs @ ys) = digits_value 10 (digits_value 10 acc xs) ys"
proof (induction xs arbitrary: acc)
  case Nil
  then show ?case by simp
next
  case (Cons c xs)
  then obtain d where "d < 10" "c = ''0123456789'' ! d"
    by (auto simp: is_digit_def)
  with Cons show ?case
    by (simp add: digit_char)
qed

lemma digits_value_decimal_digits: "digits_value 10 None (decimal_digits n) = Some n"
proof (induction n rule: decimal_digits.induct)
  case (1 n)
  show ?case
  proof (cases "n < 10")
    case True
    then show ?thesis
      by (subst decimal_digits.simps) (simp add: digit_char)
  next
    case False
    have m: "n mod 10 < 10"
      by simp
    from False 1 have "digits_value 10 None (decimal_digits (n div 10)) = Some (n div 10)"
      by simp
    with False show ?thesis
      by (subst decimal_digits.simps)
         (simp add: digits_value_append [OF decimal_digits_all] digit_char [OF m])
  qed
qed

lemma hd_decimal_digits:
  "0 < n \<Longrightarrow> \<exists>d. 0 < d \<and> d < 10 \<and> hd (decimal_digits n) = ''0123456789'' ! d"
proof (induction n rule: decimal_digits.induct)
  case (1 n)
  show ?case
  proof (cases "n < 10")
    case True
    with 1(2) show ?thesis
      by (subst decimal_digits.simps) auto
  next
    case False
    then have "0 < n div 10"
      by (simp add: div_greater_zero_iff)
    with False 1 obtain d where "0 < d" "d < 10" "hd (decimal_digits (n div 10)) = ''0123456789'' ! d"
      by blast
    with False show ?thesis
      by (subst decimal_digits.simps) auto
  qed
qed

lemma parseInt_digits:
  assumes "ds \<noteq> []" and "\<forall>c \<in> set ds. is_digit c"
  shows "parseInt ds = map_option int (digits_value 10 None ds)"
    and "parseInt (CHR ''-'' # ds) = map_option (\<lambda>n. - int n) (digits_value 10 None ds)"
proof -
  from assms obtain c cs where ds: "ds = c # cs"
    by (cases ds) auto
  with assms(2) obtain d where d: "d < 10" "c = ''0123456789'' ! d"
    by (auto simp: is_digit_def)
  have nothex: "\<not> (case ds of a # b # r \<Rightarrow> a = CHR ''0'' \<and> (b = CHR ''x'' \<or> b = CHR ''X'') | _ \<Rightarrow> False)"
  proof (cases cs)
    case Nil
    with ds show ?thesis by simp
  next
    case (Cons b r)
    with ds assms(2) obtain e where "e < 10" "b = ''0123456789'' ! e"
      by (auto simp: is_digit_def)
    with digit_char_plain [of e] Cons ds show ?thesis
      by simp
  qed
  from digit_char_plain [OF d(1)] d(2) ds nothex
  show "parseInt ds = map_option int (digits_value 10 None ds)"
    by (simp add: parseInt_def Let_def option.map_comp comp_def)
  have w: "\<not> is_white CHR ''-''"
    by (simp add: is_white_def)
  from w nothex
  show "parseInt (CHR ''-'' # ds) = map_option (\<lambda>n. - int n) (digits_value 10 None ds)"
    by (simp add: parseInt_def Let_def)
qed

lemma number_to_string_small:
  assumes "\<bar>n\<bar> < 10 ^ 21"
  shows "number_to_string n = (if n < 0 then ''-'' else []) @ decimal_digits (nat \<bar>n\<bar>)"
proof -
  have "(10::int) ^ 21 < 2 ^ 1024"
    by simp
  with assms have "\<not> \<bar>n\<bar> \<ge> 2 ^ 1024"
    by linarith
  then have small: "(\<bar>n\<bar> \<ge> 2 ^ 1024) = False"
    by blast
  from assms have digits: "(\<bar>n\<bar> < 10 ^ 21) = True"
    by blast
  show ?thesis
    unfolding number_to_string_def Let_def by (simp only: small digits if_True if_False)
qed

lemma parseInt_number_to_string:
  assumes "\<bar>n\<bar> < 10 ^ 21"
  shows "parseInt (number_to_string n) = Some n"
proof (cases "n < 0")
  case True
  then show ?thesis
    by (simp add: number_to_string_small [OF assms]
        parseInt_digits(2) [OF decimal_digits_not_Nil decimal_digits_all]
        digits_value_decimal_digits)
next
  case False
  then show ?thesis
    by (simp add: number_to_string_small [OF assms]
        parseInt_digits(1) [OF decimal_digits_not_Nil decimal_digits_all]
        digits_value_decimal_digits)
qed

lemma parseInt_undefined: "parseInt ''undefined'' = None"
  by (simp add: parseInt_def is_white_def digit_of_def)

lemma parseInt_Nil: "parseInt [] = None"
  by (simp add: parseInt_def)

lemma parseInt_Infinity:
  "parseInt ''Infinity'' = None" "parseInt ''-Infinity'' = None"
  by (simp_all add: parseInt_def is_white_def digit_of_def)

lemma parseInt_leading_digit:
  assumes "0 < d" and "d < 10"
  shows "parseInt ([''0123456789'' ! d] @ ''.'' @ rest) = Some (int d)"
    and "parseInt (''-'' @ [''0123456789'' ! d] @ ''.'' @ rest) = Some (- int d)"
proof -
  have dot: "digit_of CHR ''.'' = None"
    by (simp add: digit_of_def)
  from digit_char_plain [OF assms(2)] digit_char [OF assms(2)] dot assms(2)
  show "parseInt ([''0123456789'' ! d] @ ''.'' @ rest) = Some (int d)"
    by (simp add: parseInt_def Let_def)
  have w: "\<not> is_white CHR ''-''"
    by (simp add: is_white_def)
  from w digit_char_plain [OF assms(2)] digit_char [OF assms(2)] dot assms(2)
  show "parseInt (''-'' @ [''0123456789'' ! d] @ ''.'' @ rest) = Some (- int d)"
    by (simp add: parseInt_def Let_def)
qed

lemma parseInt_number_to_string_large:
  assumes "10 ^ 21 \<le> \<bar>n\<bar>"
  shows "parseInt (number_to_string n) = None
     \<or> (\<exists>d. 0 < d \<and> parseInt (number_to_string n) = Some (if n < 0 then - int d else int d))"
proof (cases "\<bar>n\<bar> \<ge> 2 ^ 1024")
  case True
  then have "number_to_string n = (if n < 0 then ''-Infinity'' else ''Infinity'')"
    unfolding number_to_string_def Let_def by (simp only: if_True) simp
  then show ?thesis
    by (simp add: parseInt_Infinity)
next
  case False
  then have big: "(\<bar>n\<bar> \<ge> 2 ^ 1024) = False"
    by blast
  from assms have "\<not> \<bar>n\<bar> < 10 ^ 21"
    by linarith
  then have mid: "(\<bar>n\<bar> < 10 ^ 21) = False"
    by blast
  have "(0::int) < 10 ^ 21"
    by simp
  with assms have "0 < nat \<bar>n\<bar>"
    by linarith
  from hd_decimal_digits [OF this] obtain d
    where d: "0 < d" "d < 10" "hd (decimal_digits (nat \<bar>n\<bar>)) = ''0123456789'' ! d"
    by blast
  define rest where "rest = tl (decimal_digits (nat \<bar>n\<bar>)) @ ''e+''
      @ decimal_digits (length (decimal_digits (nat \<bar>n\<bar>)) - 1)"
  have "number_to_string n = (if n < 0 then ''-'' else []) @ [''0123456789'' ! d] @ ''.'' @ rest"
    unfolding number_to_string_def Let_def rest_def
    by (simp only: big mid if_False d(3))
  with parseInt_leading_digit [OF d(1,2), of rest]
  have "parseInt (number_to_string n) = Some (if n < 0 then - int d else int d)"
    by (cases "n < 0") simp_all
  with d(1) show ?thesis
    by blast
qed

lemma reparse_sign:
  assumes "n \<noteq> 0" and "0 < d"
  shows "or_default (parseInt (number_to_string n)) d \<noteq> 0"
    and "0 < n \<Longrightarrow> 0 < or_default (parseInt (number_to_string n)) d"
    and "\<bar>n\<bar> < 10 ^ 21 \<Longrightarrow> or_default (parseInt (number_to_string n)) d = n"
proof -
  have small: "or_default (parseInt (number_to_string n)) d = n" if "\<bar>n\<bar> < 10 ^ 21"
  proof -
    have "parseInt (number_to_string n) = Some n"
      using that by (rule parseInt_number_to_string)
    with assms(1) show ?thesis
      by (simp add: or_default_def)
  qed
  have large: "or_default (parseInt (number_to_string n)) d \<noteq> 0
      \<and> (0 < n \<longrightarrow> 0 < or_default (parseInt (number_to_string n)) d)"
    if "\<not> \<bar>n\<bar> < 10 ^ 21"
  proof -
    from that have "10 ^ 21 \<le> \<bar>n\<bar>"
      by (rule leI)
    from parseInt_number_to_string_large [OF this] show ?thesis
    proof (elim disjE exE conjE)
      assume "parseInt (number_to_string n) = None"
      with assms(2) show ?thesis
        by (simp add: or_default_def)
    next
      fix k :: nat
      assume "0 < k" "parseInt (number_to_string n) = Some (if n < 0 then - int k else int k)"
      then show ?thesis
        by (cases "n < 0") (simp_all add: or_default_def)
    qed
  qed
  show "or_default (parseInt (number_to_string n)) d \<noteq> 0"
  proof (cases "\<bar>n\<bar> < 10 ^ 21")
    case True
    from small [OF True] assms(1) show ?thesis
      by simp
  next
    case False
    from large [OF False] show ?thesis
      by (rule conjunct1)
  qed
  show "0 < or_default (parseInt (number_to_string n)) d" if "0 < n"
  proof (cases "\<bar>n\<bar> < 10 ^ 21")
    case True
    from small [OF True] that show ?thesis
      by simp
  next
    case False
    from large [OF False] that show ?thesis
      by blast
  qed
  show "or_default (parseInt (number_to_string n)) d = n" if "\<bar>n\<bar> < 10 ^ 21"
    using that by (rule small)
qed

lemma controller_limit_absent:
  "q = None \<or> q = Some [] \<Longrightarrow> controller_limit d q = d"
  by (auto simp: controller_limit_def query_limit_def sanitizeQuery_limit_def truthy_q_def
      parseInt_q_def parseInt_undefined parseInt_Nil or_default_def)

lemma controller_limit_present:
  assumes "s \<noteq> []"
  shows "controller_limit d (Some s)
     = or_default (parseInt (number_to_string (or_default (parseInt s) 10))) d"
  using assms
  by (simp add: controller_limit_def query_limit_def sanitizeQuery_limit_def truthy_q_def parseInt_q_def)

lemma reparse_ten: "0 < d \<Longrightarrow> or_default (parseInt (number_to_string 10)) d = 10"
  using reparse_sign(3) [of 10 d] by simp

lemma controller_limit_invalid:
  assumes "s \<noteq> []" and "parseInt s = None \<or> parseInt s = Some 0" and "0 < d"
  shows "controller_limit d (Some s) = 10"
proof -
  from assms(2) have "or_default (parseInt s) 10 = 10"
    by (auto simp: or_default_def)
  then show ?thesis
    by (simp only: controller_limit_present [OF assms(1)] reparse_ten [OF assms(3)])
qed

lemma controller_limit_number:
  assumes "parseInt s = Some n" and "n \<noteq> 0" and "0 < d"
  shows "controller_limit d (Some s) \<noteq> 0"
    and "0 < n \<Longrightarrow> 0 < controller_limit d (Some s)"
    and "\<bar>n\<bar> < 10 ^ 21 \<Longrightarrow> controller_limit d (Some s) = n"
proof -
  from assms(1) have ne: "s \<noteq> []"
    by (auto simp: parseInt_Nil)
  from assms(1,2) have m: "or_default (parseInt s) 10 = n"
    by (simp add: or_default_def)
  show "controller_limit d (Some s) \<noteq> 0"
    by (simp only: controller_limit_present [OF ne] m reparse_sign(1) [OF assms(2,3)] not_False_eq_True)
  show "0 < controller_limit d (Some s)" if "0 < n"
    using reparse_sign(2) [OF assms(2,3) that] by (simp only: controller_limit_present [OF ne] m)
  show "controller_limit d (Some s) = n" if "\<bar>n\<bar> < 10 ^ 21"
    using reparse_sign(3) [OF assms(2,3) that] by (simp only: controller_limit_present [OF ne] m)
qed






end
